theory Spec2Isabelle
  imports Main "HOL-Library.Word"
begin

section \<open>The UDP listener of tinycollectd (test-listener/tinyd\_listen.py)\<close>

text \<open>
  The listener binds a UDP socket, opens its output file for appending and then loops
  forever: receive one datagram, decode the bytes as UTF-8, parse the text with
  \<^verbatim>\<open>json.loads\<close>, print the value again with \<^verbatim>\<open>json.dumps\<close>, write that text and a newline
  to the file, flush. A \<^verbatim>\<open>json.JSONDecodeError\<close> is caught and reported; every other
  exception leaves the loop.

  The program is modelled function by function. The three library calls it makes on the
  payload (\<^verbatim>\<open>bytes.decode\<close>, \<^verbatim>\<open>json.loads\<close>, \<^verbatim>\<open>json.dumps\<close>, all with their default
  arguments) are modelled after CPython: the strict UTF-8 decoder, \<^verbatim>\<open>json/decoder.py\<close> with
  \<^verbatim>\<open>json/scanner.py\<close>, and \<^verbatim>\<open>json/encoder.py\<close>. Two things of the interpreter are outside
  the model: the conversion between decimal text and binary floating point, which is a
  parameter of the model, and the interpreter's resource limits (recursion depth, the
  length limit on integer literals).
\<close>

subsection \<open>Bytes, text and values\<close>

type_synonym byte = "8 word"

text \<open>A Python \<^verbatim>\<open>str\<close> is a sequence of code points.\<close>

type_synonym str = "nat list"

definition ascii :: "string \<Rightarrow> str" where
  "ascii s = map of_char s"

definition bytes_of :: "string \<Rightarrow> byte list" where
  "bytes_of s = map (\<lambda>c. of_nat (of_char c)) s"

text \<open>
  The values \<^verbatim>\<open>json.loads\<close> builds: \<^verbatim>\<open>None\<close>, \<^verbatim>\<open>bool\<close>, \<^verbatim>\<open>int\<close>, \<^verbatim>\<open>float\<close>, \<^verbatim>\<open>str\<close>,
  \<^verbatim>\<open>list\<close> and \<^verbatim>\<open>dict\<close>. A \<^verbatim>\<open>dict\<close> keeps its keys in insertion order, so it is an
  association list. The type \<open>'f\<close> stands for Python's \<^verbatim>\<open>float\<close>.
\<close>

datatype 'f pyval =
    PyNone
  | PyBool bool
  | PyInt int
  | PyFloat 'f
  | PyStr str
  | PyList "'f pyval list"
  | PyDict "(str \<times> 'f pyval) list"

text \<open>
  The two float conversions the \<^verbatim>\<open>json\<close> module calls: \<^verbatim>\<open>float(s)\<close> on the text of a
  number (and for the constants \<^verbatim>\<open>NaN\<close>, \<^verbatim>\<open>Infinity\<close>, \<^verbatim>\<open>-Infinity\<close>), and the encoder's
  \<^verbatim>\<open>floatstr\<close>, which is \<^verbatim>\<open>float.__repr__\<close> except on the three constants.
\<close>

record 'f floatlib =
  py_float :: "str \<Rightarrow> 'f"
  floatstr :: "'f \<Rightarrow> str"

datatype exn = UnicodeDecodeError | JSONDecodeError | OSError

subsection \<open>\<^verbatim>\<open>bytes.decode()\<close>: strict UTF-8\<close>

definition is_cont :: "nat \<Rightarrow> bool" where
  "is_cont b = (0x80 \<le> b \<and> b \<le> 0xBF)"

text \<open>The range of the second byte depends on the first (no overlong forms, no surrogates,
  nothing above U+10FFFF).\<close>

definition second_ok :: "nat \<Rightarrow> nat \<Rightarrow> bool" where
  "second_ok b0 b1 =
     (if b0 = 0xE0 then 0xA0 \<le> b1 \<and> b1 \<le> 0xBF
      else if b0 = 0xED then 0x80 \<le> b1 \<and> b1 \<le> 0x9F
      else if b0 = 0xF0 then 0x90 \<le> b1 \<and> b1 \<le> 0xBF
      else if b0 = 0xF4 then 0x80 \<le> b1 \<and> b1 \<le> 0x8F
      else is_cont b1)"

fun utf8_decode :: "nat list \<Rightarrow> str option" where
  "utf8_decode [] = Some []"
| "utf8_decode (b0 # bs) =
     (if b0 < 0x80 then map_option ((#) b0) (utf8_decode bs)
      else if 0xC2 \<le> b0 \<and> b0 \<le> 0xDF then
        (case bs of
           b1 # r \<Rightarrow>
             if is_cont b1
             then map_option ((#) ((b0 - 0xC0) * 64 + (b1 - 0x80))) (utf8_decode r)
             else None
         | _ \<Rightarrow> None)
      else if 0xE0 \<le> b0 \<and> b0 \<le> 0xEF then
        (case bs of
           b1 # b2 # r \<Rightarrow>
             if second_ok b0 b1 \<and> is_cont b2
             then map_option
                    ((#) ((b0 - 0xE0) * 4096 + (b1 - 0x80) * 64 + (b2 - 0x80)))
                    (utf8_decode r)
             else None
         | _ \<Rightarrow> None)
      else if 0xF0 \<le> b0 \<and> b0 \<le> 0xF4 then
        (case bs of
           b1 # b2 # b3 # r \<Rightarrow>
             if second_ok b0 b1 \<and> is_cont b2 \<and> is_cont b3
             then map_option
                    ((#) ((b0 - 0xF0) * 262144 + (b1 - 0x80) * 4096
                          + (b2 - 0x80) * 64 + (b3 - 0x80)))
                    (utf8_decode r)
             else None
         | _ \<Rightarrow> None)
      else None)"

text \<open>\<^verbatim>\<open>data.decode()\<close>: the text, or \<^verbatim>\<open>UnicodeDecodeError\<close>.\<close>

definition bytes_decode :: "byte list \<Rightarrow> exn + str" where
  "bytes_decode data =
     (case utf8_decode (map unat data) of
        None \<Rightarrow> Inl UnicodeDecodeError
      | Some t \<Rightarrow> Inr t)"

subsection \<open>\<^verbatim>\<open>json.loads\<close>\<close>

text \<open>\<^verbatim>\<open>WHITESPACE = [ \t\n\r]*\<close>\<close>

definition is_ws :: "nat \<Rightarrow> bool" where
  "is_ws c = (c = 0x20 \<or> c = 0x09 \<or> c = 0x0A \<or> c = 0x0D)"

definition skip_ws :: "str \<Rightarrow> str" where
  "skip_ws s = dropWhile is_ws s"

definition is_digit :: "nat \<Rightarrow> bool" where
  "is_digit c = (0x30 \<le> c \<and> c \<le> 0x39)"

text \<open>The value of a hexadecimal digit, in either case.\<close>

definition hexval :: "nat \<Rightarrow> nat option" where
  "hexval c =
     (if 0x30 \<le> c \<and> c \<le> 0x39 then Some (c - 0x30)
      else if 0x41 \<le> c \<and> c \<le> 0x46 then Some (c - 0x41 + 10)
      else if 0x61 \<le> c \<and> c \<le> 0x66 then Some (c - 0x61 + 10)
      else None)"

text \<open>\<^verbatim>\<open>_decode_uXXXX\<close>: the four characters after \<^verbatim>\<open>\u\<close> must be hexadecimal digits.\<close>

definition decode_uXXXX :: "str \<Rightarrow> (nat \<times> str) option" where
  "decode_uXXXX s =
     (case s of
        a # b # c # d # r \<Rightarrow>
          (case (hexval a, hexval b, hexval c, hexval d) of
             (Some x, Some y, Some z, Some w) \<Rightarrow>
               Some (((x * 16 + y) * 16 + z) * 16 + w, r)
           | _ \<Rightarrow> None)
      | _ \<Rightarrow> None)"

text \<open>\<^verbatim>\<open>BACKSLASH\<close>: the one-character escapes.\<close>

definition BACKSLASH :: "nat \<Rightarrow> nat option" where
  "BACKSLASH esc =
     (if esc = 0x22 then Some 0x22
      else if esc = 0x5C then Some 0x5C
      else if esc = 0x2F then Some 0x2F
      else if esc = 0x62 then Some 0x08
      else if esc = 0x66 then Some 0x0C
      else if esc = 0x6E then Some 0x0A
      else if esc = 0x72 then Some 0x0D
      else if esc = 0x74 then Some 0x09
      else None)"

definition is_high :: "nat \<Rightarrow> bool" where
  "is_high u = (0xD800 \<le> u \<and> u \<le> 0xDBFF)"

definition is_low :: "nat \<Rightarrow> bool" where
  "is_low u = (0xDC00 \<le> u \<and> u \<le> 0xDFFF)"

text \<open>
  After a \<^verbatim>\<open>\uXXXX\<close> escape with value \<open>uni\<close>: a high surrogate that is followed by the
  escape of a low surrogate is joined with it to one code point. The result is the code
  point and the text after what was consumed; \<open>None\<close> when a following \<^verbatim>\<open>\u\<close> is not a
  well-formed escape.
\<close>

definition join_surrogate :: "nat \<Rightarrow> str \<Rightarrow> (nat \<times> str) option" where
  "join_surrogate uni s =
     (if is_high uni \<and> take 2 s = [0x5C, 0x75] then
        (case decode_uXXXX (drop 2 s) of
           None \<Rightarrow> None
         | Some (uni2, r) \<Rightarrow>
             if is_low uni2
             then Some (0x10000 + ((uni - 0xD800) * 1024 + (uni2 - 0xDC00)), r)
             else Some (uni, s))
      else Some (uni, s))"

text \<open>
  \<^verbatim>\<open>scanstring\<close> (with \<^verbatim>\<open>strict=True\<close>), on the text after the opening quote. It returns the
  decoded string and the text after the closing quote; \<open>None\<close> is \<^verbatim>\<open>JSONDecodeError\<close>.
\<close>

function scanstring :: "str \<Rightarrow> (str \<times> str) option" where
  "scanstring [] = None"
| "scanstring (c # cs) =
     (if c = 0x22 then Some ([], cs)
      else if c = 0x5C then
        (case cs of
           [] \<Rightarrow> None
         | esc # r \<Rightarrow>
             if esc \<noteq> 0x75 then
               (case BACKSLASH esc of
                  None \<Rightarrow> None
                | Some ch \<Rightarrow> map_option (\<lambda>(t, e). (ch # t, e)) (scanstring r))
             else
               (case decode_uXXXX r of
                  None \<Rightarrow> None
                | Some (uni, r1) \<Rightarrow>
                    (case join_surrogate uni r1 of
                       None \<Rightarrow> None
                     | Some (ch, r2) \<Rightarrow>
                         map_option (\<lambda>(t, e). (ch # t, e)) (scanstring r2))))
      else if c < 0x20 then None
      else map_option (\<lambda>(t, e). (c # t, e)) (scanstring cs))"
  by pat_completeness auto

lemma decode_uXXXX_length:
  "decode_uXXXX s = Some (u, r) \<Longrightarrow> length s = length r + 4"
  by (auto simp: decode_uXXXX_def split: list.splits option.splits)

lemma join_surrogate_length:
  "join_surrogate u s = Some (ch, r) \<Longrightarrow> length r \<le> length s"
  by (auto simp: join_surrogate_def split: if_splits option.splits dest!: decode_uXXXX_length)

termination scanstring
  by (relation "measure length")
     (auto dest!: decode_uXXXX_length join_surrogate_length)

lemma scanstring_length:
  "scanstring s = Some (t, r) \<Longrightarrow> length r < length s"
  by (induction s arbitrary: t r rule: scanstring.induct)
     (fastforce split: if_splits list.splits option.splits
        dest!: decode_uXXXX_length join_surrogate_length)+

text \<open>\<^verbatim>\<open>NUMBER_RE = (-?(?:0|[1-9]\d*))(\.\d+)?([eE][-+]?\d+)?\<close>, in three steps.\<close>

definition match_integer :: "str \<Rightarrow> (str \<times> str) option" where
  "match_integer s =
     (let (sign, s1) = (case s of c # r \<Rightarrow> if c = 0x2D then ([c], r) else ([], s) | [] \<Rightarrow> ([], s))
      in case s1 of
           [] \<Rightarrow> None
         | c # r \<Rightarrow>
             if c = 0x30 then Some (sign @ [c], r)
             else if 0x31 \<le> c \<and> c \<le> 0x39
             then Some (sign @ c # takeWhile is_digit r, dropWhile is_digit r)
             else None)"

definition match_frac :: "str \<Rightarrow> str \<times> str" where
  "match_frac s =
     (case s of
        c # d # r \<Rightarrow>
          if c = 0x2E \<and> is_digit d
          then (c # d # takeWhile is_digit r, dropWhile is_digit r)
          else ([], s)
      | _ \<Rightarrow> ([], s))"

definition match_exp :: "str \<Rightarrow> str \<times> str" where
  "match_exp s =
     (case s of
        [] \<Rightarrow> ([], s)
      | e # s1 \<Rightarrow>
          if e = 0x65 \<or> e = 0x45 then
            (let (sign, s2) =
               (case s1 of c # r \<Rightarrow> if c = 0x2B \<or> c = 0x2D then ([c], r) else ([], s1)
                | [] \<Rightarrow> ([], s1))
             in case s2 of
                  d # r \<Rightarrow>
                    if is_digit d
                    then (e # sign @ d # takeWhile is_digit r, dropWhile is_digit r)
                    else ([], s)
                | [] \<Rightarrow> ([], s))
          else ([], s))"

definition match_number :: "str \<Rightarrow> (str \<times> str \<times> str \<times> str) option" where
  "match_number s =
     (case match_integer s of
        None \<Rightarrow> None
      | Some (integer, s1) \<Rightarrow>
          (let (frac, s2) = match_frac s1; (exp, s3) = match_exp s2
           in Some (integer, frac, exp, s3)))"


text \<open>\<^verbatim>\<open>int(s)\<close> on the text of an integer literal.\<close>

definition digits_value :: "str \<Rightarrow> nat" where
  "digits_value ds = foldl (\<lambda>n d. n * 10 + (d - 0x30)) 0 ds"

definition parse_int :: "str \<Rightarrow> int" where
  "parse_int s =
     (case s of
        c # r \<Rightarrow> if c = 0x2D then - int (digits_value r) else int (digits_value s)
      | [] \<Rightarrow> 0)"

text \<open>\<^verbatim>\<open>dict(pairs)\<close>: a later pair with a key already present replaces the value and keeps
  the key's place.\<close>

fun dict_set :: "(str \<times> 'v) list \<Rightarrow> str \<Rightarrow> 'v \<Rightarrow> (str \<times> 'v) list" where
  "dict_set [] k v = [(k, v)]"
| "dict_set ((k', v') # d) k v =
     (if k' = k then (k, v) # d else (k', v') # dict_set d k v)"

definition dict_of_pairs :: "(str \<times> 'v) list \<Rightarrow> (str \<times> 'v) list" where
  "dict_of_pairs pairs = foldl (\<lambda>d (k, v). dict_set d k v) [] pairs"

lemma skip_ws_length: "length (skip_ws s) \<le> length s"
  by (simp add: skip_ws_def length_dropWhile_le)

lemma skip_ws_Cons_length: "skip_ws s = c # r \<Longrightarrow> length r < length s"
  using skip_ws_length [of s] by simp

lemma match_integer_append:
  "match_integer s = Some (i, r) \<Longrightarrow> s = i @ r \<and> i \<noteq> []"
  by (auto simp: match_integer_def Let_def split: list.splits if_splits)

lemma match_frac_append: "match_frac s = (f, r) \<Longrightarrow> s = f @ r"
  by (auto simp: match_frac_def split: list.splits if_splits)

lemma match_exp_append: "match_exp s = (x, r) \<Longrightarrow> s = x @ r"
  by (auto simp: match_exp_def Let_def split: list.splits if_splits)

lemma match_number_append:
  "match_number s = Some (i, f, x, r) \<Longrightarrow> s = i @ f @ x @ r \<and> i \<noteq> []"
  by (auto simp: match_number_def Let_def split: option.splits prod.splits
           dest!: match_integer_append match_frac_append match_exp_append)

lemma match_number_length:
  "match_number s = Some (i, f, x, r) \<Longrightarrow> length r < length s"
  by (drule match_number_append) (cases i, auto)


text \<open>
  The branches of \<^verbatim>\<open>_scan_once\<close> that read no nested value: \<^verbatim>\<open>null\<close>, \<^verbatim>\<open>true\<close>,
  \<^verbatim>\<open>false\<close>, a number, and the constants \<^verbatim>\<open>NaN\<close>, \<^verbatim>\<open>Infinity\<close>, \<^verbatim>\<open>-Infinity\<close>, in the
  order of the source.
\<close>

definition scan_atom :: "'f floatlib \<Rightarrow> str \<Rightarrow> ('f pyval \<times> str) option" where
  "scan_atom F s =
     (if take 4 s = [0x6E, 0x75, 0x6C, 0x6C] then Some (PyNone, drop 4 s)
      else if take 4 s = [0x74, 0x72, 0x75, 0x65] then Some (PyBool True, drop 4 s)
      else if take 5 s = [0x66, 0x61, 0x6C, 0x73, 0x65] then Some (PyBool False, drop 5 s)
      else
        (case match_number s of
           Some (integer, frac, exp, e) \<Rightarrow>
             if frac \<noteq> [] \<or> exp \<noteq> []
             then Some (PyFloat (py_float F (integer @ frac @ exp)), e)
             else Some (PyInt (parse_int integer), e)
         | None \<Rightarrow>
             if take 3 s = [0x4E, 0x61, 0x4E] then
               Some (PyFloat (py_float F [0x4E, 0x61, 0x4E]), drop 3 s)
             else if take 8 s = [0x49, 0x6E, 0x66, 0x69, 0x6E, 0x69, 0x74, 0x79] then
               Some (PyFloat (py_float F [0x49, 0x6E, 0x66, 0x69, 0x6E, 0x69, 0x74, 0x79]),
                     drop 8 s)
             else if take 9 s = [0x2D, 0x49, 0x6E, 0x66, 0x69, 0x6E, 0x69, 0x74, 0x79] then
               Some (PyFloat
                       (py_float F [0x2D, 0x49, 0x6E, 0x66, 0x69, 0x6E, 0x69, 0x74, 0x79]),
                     drop 9 s)
             else None))"

text \<open>
  \<^verbatim>\<open>_scan_once\<close> with \<^verbatim>\<open>JSONObject\<close> and \<^verbatim>\<open>JSONArray\<close>. The argument is the text from the
  index on; the result is the value and the text from the end index on. \<open>None\<close> stands
  for \<^verbatim>\<open>JSONDecodeError\<close> (a \<^verbatim>\<open>StopIteration\<close> of the scanner is turned into one by each
  caller). \<open>array_items\<close> is the \<^verbatim>\<open>while\<close> loop of \<^verbatim>\<open>JSONArray\<close>, entered at a value;
  \<open>object_pairs\<close> is the loop of \<^verbatim>\<open>JSONObject\<close>, entered after the opening quote of a key.
\<close>

function
  scan_once :: "'f floatlib \<Rightarrow> str \<Rightarrow> ('f pyval \<times> str) option"
  and array_items :: "'f floatlib \<Rightarrow> str \<Rightarrow> ('f pyval list \<times> str) option"
  and object_pairs :: "'f floatlib \<Rightarrow> str \<Rightarrow> ((str \<times> 'f pyval) list \<times> str) option"
where
  "scan_once F s =
     (case s of
        [] \<Rightarrow> None
      | nextchar # cs \<Rightarrow>
          if nextchar = 0x22 then
            (case scanstring cs of None \<Rightarrow> None | Some (t, e) \<Rightarrow> Some (PyStr t, e))
          else if nextchar = 0x7B then
            (case skip_ws cs of
               [] \<Rightarrow> None
             | c # r \<Rightarrow>
                 if c = 0x7D then Some (PyDict [], r)
                 else if c = 0x22 then
                   (case object_pairs F r of
                      None \<Rightarrow> None
                    | Some (pairs, e) \<Rightarrow> Some (PyDict (dict_of_pairs pairs), e))
                 else None)
          else if nextchar = 0x5B then
            (case skip_ws cs of
               [] \<Rightarrow> None
             | c # r \<Rightarrow>
                 if c = 0x5D then Some (PyList [], r)
                 else
                   (case array_items F (c # r) of
                      None \<Rightarrow> None
                    | Some (vals, e) \<Rightarrow> Some (PyList vals, e)))
          else scan_atom F s)"
| "array_items F s =
     (case scan_once F s of
        None \<Rightarrow> None
      | Some (v, e) \<Rightarrow>
          (case skip_ws e of
             [] \<Rightarrow> None
           | c # r \<Rightarrow>
               if c = 0x5D then Some ([v], r)
               else if c = 0x2C then
                 (case array_items F (skip_ws r) of
                    None \<Rightarrow> None
                  | Some (vals, e') \<Rightarrow> Some (v # vals, e'))
               else None))"
| "object_pairs F s =
     (case scanstring s of
        None \<Rightarrow> None
      | Some (key, e) \<Rightarrow>
          (case skip_ws e of
             [] \<Rightarrow> None
           | c # r \<Rightarrow>
               if c \<noteq> 0x3A then None
               else
                 (case scan_once F (skip_ws r) of
                    None \<Rightarrow> None
                  | Some (v, e1) \<Rightarrow>
                      (case skip_ws e1 of
                         [] \<Rightarrow> None
                       | c1 # r1 \<Rightarrow>
                           if c1 = 0x7D then Some ([(key, v)], r1)
                           else if c1 \<noteq> 0x2C then None
                           else
                             (case skip_ws r1 of
                                [] \<Rightarrow> None
                              | c2 # r2 \<Rightarrow>
                                  if c2 \<noteq> 0x22 then None
                                  else
                                    (case object_pairs F r2 of
                                       None \<Rightarrow> None
                                     | Some (pairs, e2) \<Rightarrow> Some ((key, v) # pairs, e2)))))))"
  by pat_completeness auto

lemma scan_atom_length: "scan_atom F s = Some (v, e) \<Longrightarrow> length e < length s"
  unfolding scan_atom_def
  by (cases s) (auto split: if_splits option.splits dest!: match_number_length)



lemma scan_progress_dom:
  "scan_once_array_items_object_pairs_dom (Inl (F, s)) \<Longrightarrow>
     (\<And>v e. scan_once F s = Some (v, e) \<Longrightarrow> length e < length s)"
  "scan_once_array_items_object_pairs_dom (Inr (Inl (F, s1))) \<Longrightarrow>
     (\<And>vs e. array_items F s1 = Some (vs, e) \<Longrightarrow> length e < length s1)"
  "scan_once_array_items_object_pairs_dom (Inr (Inr (F, s2))) \<Longrightarrow>
     (\<And>ps e. object_pairs F s2 = Some (ps, e) \<Longrightarrow> length e < length s2)"
proof (induction F s and F s1 and F s2 rule: scan_once_array_items_object_pairs.pinduct)
  case (1 F s)
  show ?case
  proof (cases s)
    case Nil
    with "1.prems" "1.hyps" show ?thesis by (simp add: scan_once.psimps)
  next
    case (Cons c cs)
    have eq: "(if c = 0x22 then
            (case scanstring cs of None \<Rightarrow> None | Some (t, e) \<Rightarrow> Some (PyStr t, e))
          else if c = 0x7B then
            (case skip_ws cs of
               [] \<Rightarrow> None
             | c' # r \<Rightarrow>
                 if c' = 0x7D then Some (PyDict [], r)
                 else if c' = 0x22 then
                   (case object_pairs F r of
                      None \<Rightarrow> None
                    | Some (pairs, e) \<Rightarrow> Some (PyDict (dict_of_pairs pairs), e))
                 else None)
          else if c = 0x5B then
            (case skip_ws cs of
               [] \<Rightarrow> None
             | c' # r \<Rightarrow>
                 if c' = 0x5D then Some (PyList [], r)
                 else
                   (case array_items F (c' # r) of
                      None \<Rightarrow> None
                    | Some (vals, e) \<Rightarrow> Some (PyList vals, e)))
          else scan_atom F (c # cs)) = Some (v, e)"
      using "1.prems" "1.hyps" Cons by (simp add: scan_once.psimps)
    consider (str) "c = 0x22" | (obj) "c = 0x7B" | (arr) "c = 0x5B"
      | (atom) "c \<noteq> 0x22" "c \<noteq> 0x7B" "c \<noteq> 0x5B"
      by blast
    then show ?thesis
    proof cases
      case str
      with eq Cons show ?thesis
        by (auto split: option.splits dest!: scanstring_length)
    next
      case obj
      show ?thesis
      proof (cases "skip_ws cs")
        case Nil
        with eq obj show ?thesis by simp
      next
        case (Cons c' r)
        have lr: "length r < length cs" using Cons by (rule skip_ws_Cons_length)
        show ?thesis
        proof (cases "c' = 0x7D")
          case True
          with eq obj Cons lr \<open>s = c # cs\<close> show ?thesis by simp
        next
          case False
          with eq obj Cons obtain ps where q: "c' = 0x22" "object_pairs F r = Some (ps, e)"
            by (auto split: if_splits option.splits)
          have "length e < length r"
            using "1.IH"(1) [OF \<open>s = c # cs\<close> _ obj Cons False q(1) q(2)] obj by simp
          with lr \<open>s = c # cs\<close> show ?thesis by simp
        qed
      qed
    next
      case arr
      show ?thesis
      proof (cases "skip_ws cs")
        case Nil
        with eq arr show ?thesis by simp
      next
        case (Cons c' r)
        have lr: "length r < length cs" using Cons by (rule skip_ws_Cons_length)
        show ?thesis
        proof (cases "c' = 0x5D")
          case True
          with eq arr Cons lr \<open>s = c # cs\<close> show ?thesis by simp
        next
          case False
          with eq arr Cons obtain vs where q: "array_items F (c' # r) = Some (vs, e)"
            by (auto split: if_splits option.splits)
          have "length e < length (c' # r)"
            using "1.IH"(2) [OF \<open>s = c # cs\<close> _ _ arr Cons False q] arr by simp
          with lr \<open>s = c # cs\<close> show ?thesis by simp
        qed
      qed
    next
      case atom
      with eq have "scan_atom F (c # cs) = Some (v, e)" by simp
      with Cons show ?thesis by (auto dest: scan_atom_length)
    qed
  qed
next
  case (2 F s)
  note eq = "2.prems" [unfolded array_items.psimps [OF "2.hyps"]]
  from eq obtain v e1 where so: "scan_once F s = Some (v, e1)"
    by (auto split: option.splits)
  have l1: "length e1 < length s" using "2.IH"(1) so .
  from eq so obtain c r where sk: "skip_ws e1 = c # r"
    by (auto split: list.splits)
  have lr: "length r < length e1" using sk by (rule skip_ws_Cons_length)
  show ?case
  proof (cases "c = 0x5D")
    case True
    with eq so sk lr l1 show ?thesis by simp
  next
    case False
    with eq so sk obtain vs' where q: "c = 0x2C" "array_items F (skip_ws r) = Some (vs', e)"
      by (auto split: if_splits option.splits)
    have "length e < length (skip_ws r)"
      using "2.IH"(2) [OF so _ sk False q(1) q(2)] by simp
    with lr l1 skip_ws_length [of r] show ?thesis by simp
  qed
next
  case (3 F s)
  note eq = "3.prems" [unfolded object_pairs.psimps [OF "3.hyps"]]
  from eq obtain key e0 where ss: "scanstring s = Some (key, e0)"
    by (auto split: option.splits)
  have l0: "length e0 < length s" using ss by (rule scanstring_length)
  from eq ss obtain c r where sk: "skip_ws e0 = c # r"
    by (auto split: list.splits)
  have lr: "length r < length e0" using sk by (rule skip_ws_Cons_length)
  from eq ss sk have c: "\<not> c \<noteq> 0x3A" by (auto split: if_splits)
  from eq ss sk c obtain v e1 where so: "scan_once F (skip_ws r) = Some (v, e1)"
    by (auto split: option.splits)
  have l1: "length e1 < length (skip_ws r)"
    using "3.IH"(1) [OF ss _ sk c so] by simp
  from eq ss sk c so obtain c1 r1 where sk1: "skip_ws e1 = c1 # r1"
    by (auto split: list.splits)
  have lr1: "length r1 < length e1" using sk1 by (rule skip_ws_Cons_length)
  show ?case
  proof (cases "c1 = 0x7D")
    case True
    with eq ss sk c so sk1 lr1 l1 lr l0 skip_ws_length [of r] show ?thesis by simp
  next
    case False
    with eq ss sk c so sk1 have c1: "\<not> c1 \<noteq> 0x2C" by (auto split: if_splits)
    from eq ss sk c so sk1 False c1 obtain c2 r2 where sk2: "skip_ws r1 = c2 # r2"
      by (auto split: list.splits)
    have lr2: "length r2 < length r1" using sk2 by (rule skip_ws_Cons_length)
    from eq ss sk c so sk1 False c1 sk2 have c2: "\<not> c2 \<noteq> 0x22" by (auto split: if_splits)
    from eq ss sk c so sk1 False c1 sk2 c2 obtain ps' where
      q: "object_pairs F r2 = Some (ps', e)"
      by (auto split: option.splits)
    have "length e < length r2"
      using "3.IH"(2) [OF ss _ sk c so _ sk1 False c1 sk2 c2 q] by simp
    with lr2 lr1 l1 lr l0 skip_ws_length [of r] show ?thesis by simp
  qed
qed

lemma scan_total: "All scan_once_array_items_object_pairs_dom"
proof (relation "measure (\<lambda>x. case x of
          Inl (F, s) \<Rightarrow> 2 * length s
        | Inr (Inl (F, s)) \<Rightarrow> 2 * length s + 1
        | Inr (Inr (F, s)) \<Rightarrow> 2 * length s + 1)", goal_cases)
  case 1 show ?case by simp
next
  case 2 then show ?case by (auto dest!: skip_ws_Cons_length)
next
  case 3 then show ?case by (auto dest!: skip_ws_Cons_length)
next
  case 4 then show ?case by simp
next
  case (5 F s x2 x y c r)
  then show ?case
    using skip_ws_length [of r] by (auto dest!: scan_progress_dom(1) skip_ws_Cons_length)
next
  case (6 F s x2 x y c r)
  then show ?case
    using skip_ws_length [of r] by (auto dest!: scanstring_length skip_ws_Cons_length)
next
  case (7 F s x2 key e0 c r x2a v e1 c1 r1 c2 r2)
  then show ?case
    using skip_ws_length [of r]
    by (auto dest!: scanstring_length scan_progress_dom(1) skip_ws_Cons_length)
qed


termination scan_once
  by (rule scan_total)

declare scan_once.simps [simp del] array_items.simps [simp del] object_pairs.simps [simp del]

lemma scan_once_length: "scan_once F s = Some (v, e) \<Longrightarrow> length e < length s"
  using scan_progress_dom(1) scan_total by blast

lemma array_items_length: "array_items F s = Some (vs, e) \<Longrightarrow> length e < length s"
  using scan_progress_dom(2) scan_total by blast

lemma object_pairs_length: "object_pairs F s = Some (ps, e) \<Longrightarrow> length e < length s"
  using scan_progress_dom(3) scan_total by blast

text \<open>
  \<^verbatim>\<open>JSONDecoder.decode\<close>: white space, one value, white space, and nothing else
  (\<^verbatim>\<open>if end != len(s): raise JSONDecodeError("Extra data", s, end)\<close>).
\<close>

definition decode :: "'f floatlib \<Rightarrow> str \<Rightarrow> exn + 'f pyval" where
  "decode F s =
     (case scan_once F (skip_ws s) of
        None \<Rightarrow> Inl JSONDecodeError
      | Some (obj, e) \<Rightarrow>
          if skip_ws e \<noteq> [] then Inl JSONDecodeError else Inr obj)"

text \<open>\<^verbatim>\<open>json.loads(s)\<close> on a \<^verbatim>\<open>str\<close>: a leading byte order mark is refused.\<close>

definition json_loads :: "'f floatlib \<Rightarrow> str \<Rightarrow> exn + 'f pyval" where
  "json_loads F s =
     (if take 1 s = [0xFEFF] then Inl JSONDecodeError else decode F s)"

subsection \<open>\<^verbatim>\<open>json.dumps\<close>\<close>

text \<open>\<^verbatim>\<open>'{0:04x}'.format(n)\<close> for \<open>n < 0x10000\<close>: four lower-case hexadecimal digits.\<close>

definition hexdigit :: "nat \<Rightarrow> nat" where
  "hexdigit d = (if d < 10 then 0x30 + d else 0x61 + (d - 10))"

definition hex4 :: "nat \<Rightarrow> str" where
  "hex4 n = [hexdigit (n div 4096 mod 16), hexdigit (n div 256 mod 16),
             hexdigit (n div 16 mod 16), hexdigit (n mod 16)]"

text \<open>
  What \<^verbatim>\<open>py_encode_basestring_ascii\<close> makes of one character. \<^verbatim>\<open>ESCAPE_ASCII\<close> matches a
  backslash, a double quote and everything outside \<^verbatim>\<open>' '..'~'\<close>; \<^verbatim>\<open>ESCAPE_DCT\<close> has the short
  escapes, and \<^verbatim>\<open>\u00XX\<close> for the other control characters. In the surrogate pair,
  \<^verbatim>\<open>0xd800 | ((n >> 10) & 0x3ff)\<close> is \<open>0xD800 + n div 1024 mod 1024\<close> and
  \<^verbatim>\<open>0xdc00 | (n & 0x3ff)\<close> is \<open>0xDC00 + n mod 1024\<close>, the low ten bits of both constants
  being zero.
\<close>

definition escape_char :: "nat \<Rightarrow> str" where
  "escape_char c =
     (if c = 0x5C then [0x5C, 0x5C]
      else if c = 0x22 then [0x5C, 0x22]
      else if c = 0x08 then [0x5C, 0x62]
      else if c = 0x0C then [0x5C, 0x66]
      else if c = 0x0A then [0x5C, 0x6E]
      else if c = 0x0D then [0x5C, 0x72]
      else if c = 0x09 then [0x5C, 0x74]
      else if 0x20 \<le> c \<and> c \<le> 0x7E then [c]
      else if c < 0x10000 then [0x5C, 0x75] @ hex4 c
      else
        (let n = c - 0x10000;
             s1 = 0xD800 + n div 1024 mod 1024;
             s2 = 0xDC00 + n mod 1024
         in [0x5C, 0x75] @ hex4 s1 @ [0x5C, 0x75] @ hex4 s2))"

definition encode_basestring_ascii :: "str \<Rightarrow> str" where
  "encode_basestring_ascii s = 0x22 # concat (map escape_char s) @ [0x22]"

text \<open>\<^verbatim>\<open>int.__repr__\<close>: decimal digits, with a minus sign for a negative number.\<close>

fun nat_repr :: "nat \<Rightarrow> str" where
  "nat_repr n = (if n < 10 then [0x30 + n] else nat_repr (n div 10) @ [0x30 + n mod 10])"

declare nat_repr.simps [simp del]

definition int_repr :: "int \<Rightarrow> str" where
  "int_repr i = (if i < 0 then 0x2D # nat_repr (nat (- i)) else nat_repr (nat i))"

text \<open>
  \<^verbatim>\<open>json.dumps(obj)\<close> with the default arguments: \<^verbatim>\<open>ensure_ascii=True\<close>, the separators
  \<^verbatim>\<open>', '\<close> and \<^verbatim>\<open>': '\<close>, keys in the order of the \<^verbatim>\<open>dict\<close>, no indentation. The keys of a
  decoded object are strings.
\<close>

fun json_dumps :: "'f floatlib \<Rightarrow> 'f pyval \<Rightarrow> str"
  and dumps_items :: "'f floatlib \<Rightarrow> 'f pyval list \<Rightarrow> str"
  and dumps_pairs :: "'f floatlib \<Rightarrow> (str \<times> 'f pyval) list \<Rightarrow> str"
where
  "json_dumps F PyNone = [0x6E, 0x75, 0x6C, 0x6C]"
| "json_dumps F (PyBool b) =
     (if b then [0x74, 0x72, 0x75, 0x65] else [0x66, 0x61, 0x6C, 0x73, 0x65])"
| "json_dumps F (PyInt i) = int_repr i"
| "json_dumps F (PyFloat x) = floatstr F x"
| "json_dumps F (PyStr s) = encode_basestring_ascii s"
| "json_dumps F (PyList vs) = 0x5B # dumps_items F vs @ [0x5D]"
| "json_dumps F (PyDict kvs) = 0x7B # dumps_pairs F kvs @ [0x7D]"
| "dumps_items F [] = []"
| "dumps_items F [v] = json_dumps F v"
| "dumps_items F (v # w # vs) = json_dumps F v @ [0x2C, 0x20] @ dumps_items F (w # vs)"
| "dumps_pairs F [] = []"
| "dumps_pairs F [(k, v)] = encode_basestring_ascii k @ [0x3A, 0x20] @ json_dumps F v"
| "dumps_pairs F ((k, v) # p # ps) =
     encode_basestring_ascii k @ [0x3A, 0x20] @ json_dumps F v @ [0x2C, 0x20]
     @ dumps_pairs F (p # ps)"

subsection \<open>The listener\<close>

definition HOST :: string where
  "HOST = ''0.0.0.0''"

definition PORT :: nat where
  "PORT = 1555"

definition OUTPUT_FILE :: string where
  "OUTPUT_FILE = ''metrics.out''"

text \<open>A sender's address, and a datagram as the transport delivers it.\<close>

type_synonym addr = "string \<times> nat"

record datagram =
  payload :: "byte list"
  sender :: addr

text \<open>\<^verbatim>\<open>s.recvfrom(bufsize)\<close> on a datagram socket returns at most \<open>bufsize\<close> bytes of the
  datagram; the rest of a longer datagram is discarded.\<close>

definition recvfrom :: "nat \<Rightarrow> datagram \<Rightarrow> byte list \<times> addr" where
  "recvfrom bufsize d = (take bufsize (payload d), sender d)"

text \<open>
  The file object \<open>f\<close>, opened with mode \<^verbatim>\<open>'a'\<close>: the characters that have reached the file
  and the characters still in the buffer of the file object. Whether a write or a flush
  fails is decided outside the program; it is an input of each iteration.
\<close>

record sinkfile =
  disk :: str
  pending :: str

datatype fault = NoFault | WriteFails | FlushFails

definition f_write :: "fault \<Rightarrow> sinkfile \<Rightarrow> str \<Rightarrow> exn + sinkfile" where
  "f_write ft f s =
     (if ft = WriteFails then Inl OSError else Inr (f\<lparr>pending := pending f @ s\<rparr>))"

definition f_flush :: "fault \<Rightarrow> sinkfile \<Rightarrow> exn + sinkfile" where
  "f_flush ft f =
     (if ft = FlushFails then Inl OSError
      else Inr \<lparr>disk = disk f @ pending f, pending = []\<rparr>)"

text \<open>The lines the program prints.\<close>

datatype notice =
    Listening string nat string
  | Received_and_wrote addr
  | Invalid_JSON addr

text \<open>
  The state of \<^verbatim>\<open>listen_udp_and_write\<close>: the file, what has been printed, and the exception
  that has left the loop, if any. Once an exception has left the loop the \<^verbatim>\<open>with\<close> block
  closes the socket and the file and the process ends; what a failed write or flush has
  left in the file is not modelled.
\<close>

record listener =
  f :: sinkfile
  printed :: "notice list"
  raised :: "exn option"

text \<open>Line 16, \<^verbatim>\<open>json.loads(data.decode())\<close>: the validation of a payload.\<close>

definition validator :: "'f floatlib \<Rightarrow> byte list \<Rightarrow> exn + 'f pyval" where
  "validator F data =
     (case bytes_decode data of
        Inl e \<Rightarrow> Inl e
      | Inr t \<Rightarrow> json_loads F t)"

text \<open>The body of the \<^verbatim>\<open>try\<close> statement (lines 16 to 20): the new state, or the exception.\<close>

definition try_body ::
  "'f floatlib \<Rightarrow> fault \<Rightarrow> listener \<Rightarrow> byte list \<Rightarrow> addr \<Rightarrow> exn + listener" where
  "try_body F ft st data a =
     (case validator F data of
        Inl e \<Rightarrow> Inl e
      | Inr obj \<Rightarrow>
          (let json_line = json_dumps F obj
           in case f_write ft (f st) (json_line @ [0x0A]) of
                Inl e \<Rightarrow> Inl e
              | Inr f1 \<Rightarrow>
                  (case f_flush ft f1 of
                     Inl e \<Rightarrow> Inl e
                   | Inr f2 \<Rightarrow>
                       Inr (st\<lparr>f := f2,
                               printed := printed st @ [Received_and_wrote a]\<rparr>))))"

text \<open>
  One iteration of \<^verbatim>\<open>while True\<close> (lines 14 to 22): \<^verbatim>\<open>recvfrom(65535)\<close>, the \<^verbatim>\<open>try\<close> body,
  and the handler \<^verbatim>\<open>except json.JSONDecodeError\<close>, which catches that exception only.
\<close>

definition loop_body :: "'f floatlib \<Rightarrow> listener \<Rightarrow> datagram \<times> fault \<Rightarrow> listener" where
  "loop_body F st ev =
     (let (data, a) = recvfrom 65535 (fst ev)
      in case try_body F (snd ev) st data a of
           Inr st' \<Rightarrow> st'
         | Inl JSONDecodeError \<Rightarrow> st\<lparr>printed := printed st @ [Invalid_JSON a]\<rparr>
         | Inl e \<Rightarrow> st\<lparr>raised := Some e\<rparr>)"

text \<open>The loop, over the datagrams delivered so far; it runs as long as no exception has
  left it.\<close>

fun listen_loop :: "'f floatlib \<Rightarrow> listener \<Rightarrow> (datagram \<times> fault) list \<Rightarrow> listener" where
  "listen_loop F st [] = st"
| "listen_loop F st (ev # evs) =
     (if raised st \<noteq> None then st else listen_loop F (loop_body F st ev) evs)"



definition startup :: "str \<Rightarrow> listener" where
  "startup existing =
     \<lparr>f = \<lparr>disk = existing, pending = []\<rparr>,
      printed = [Listening HOST PORT OUTPUT_FILE],
      raised = None\<rparr>"

definition listen_udp_and_write ::
  "'f floatlib \<Rightarrow> str \<Rightarrow> (datagram \<times> fault) list \<Rightarrow> listener" where
  "listen_udp_and_write F existing evs = listen_loop F (startup existing) evs"

text \<open>A float library for examples: a float is kept as the text of its literal.\<close>

definition text_floats :: "str floatlib" where
  "text_floats = \<lparr>py_float = (\<lambda>s. s), floatstr = (\<lambda>x. x)\<rparr>"



text \<open>The number of lines of a file: the number of its newline characters.\<close>

definition line_count :: "str \<Rightarrow> nat" where
  "line_count t = length (filter (\<lambda>c. c = 0x0A) t)"

subsection \<open>Evaluating the model\<close>

text \<open>Rewriting with the defining equations evaluates the model on a given input; the
  weak congruence rules make the simplifier decide a \<open>case\<close> before it looks at the
  branches.\<close>

named_theorems json_eval

lemmas [json_eval] =
  json_loads_def decode_def ascii_def bytes_of_def skip_ws_def is_ws_def
  scan_once.simps array_items.simps object_pairs.simps
  scan_atom_def match_number_def match_integer_def match_frac_def match_exp_def is_digit_def
  parse_int_def digits_value_def dict_of_pairs_def Let_def text_floats_def
  decode_uXXXX_def hexval_def BACKSLASH_def join_surrogate_def is_high_def is_low_def
  bytes_decode_def is_cont_def second_ok_def validator_def
  encode_basestring_ascii_def escape_char_def hex4_def hexdigit_def int_repr_def nat_repr.simps
  recvfrom_def f_write_def f_flush_def try_body_def loop_body_def startup_def
  listen_udp_and_write_def line_count_def

lemmas eval_cong =
  list.case_cong_weak option.case_cong_weak prod.case_cong_weak sum.case_cong_weak
  exn.case_cong_weak


section \<open>The encoder and the decoder\<close>

subsection \<open>The characters \<^verbatim>\<open>json.dumps\<close> writes\<close>

definition printable :: "nat \<Rightarrow> bool" where
  "printable c = (0x20 \<le> c \<and> c \<le> 0x7E)"

text \<open>
  The text of a float as the decoder reads one: a number with a fraction or an exponent,
  or one of \<^verbatim>\<open>NaN\<close>, \<^verbatim>\<open>Infinity\<close>, \<^verbatim>\<open>-Infinity\<close>.
\<close>

definition float_token :: "str \<Rightarrow> bool" where
  "float_token t =
     (t = [0x4E, 0x61, 0x4E]
      \<or> t = [0x49, 0x6E, 0x66, 0x69, 0x6E, 0x69, 0x74, 0x79]
      \<or> t = [0x2D, 0x49, 0x6E, 0x66, 0x69, 0x6E, 0x69, 0x74, 0x79]
      \<or> (case match_number t of
            Some (integer, frac, exp, e) \<Rightarrow> e = [] \<and> (frac \<noteq> [] \<or> exp \<noteq> [])
          | None \<Rightarrow> False))"

text \<open>A float the encoder and the decoder agree on: \<^verbatim>\<open>floatstr\<close> prints it as a float
  token, and \<^verbatim>\<open>float\<close> reads that token back to the same float.\<close>

definition wf_float :: "'f floatlib \<Rightarrow> 'f \<Rightarrow> bool" where
  "wf_float F x = (float_token (floatstr F x) \<and> py_float F (floatstr F x) = x)"

text \<open>A string as the decoder builds one: code points up to U+10FFFF, and no high
  surrogate directly before a low surrogate (the decoder joins such a pair).\<close>

fun wf_str :: "str \<Rightarrow> bool" where
  "wf_str [] = True"
| "wf_str [c] = (c < 0x110000)"
| "wf_str (c # d # s) = (c < 0x110000 \<and> \<not> (is_high c \<and> is_low d) \<and> wf_str (d # s))"

text \<open>A well-formed record: strings and floats as above, and the keys of every
  \<^verbatim>\<open>dict\<close> distinct.\<close>

fun wf_record :: "'f floatlib \<Rightarrow> 'f pyval \<Rightarrow> bool" where
  "wf_record F PyNone = True"
| "wf_record F (PyBool b) = True"
| "wf_record F (PyInt i) = True"
| "wf_record F (PyFloat x) = wf_float F x"
| "wf_record F (PyStr s) = wf_str s"
| "wf_record F (PyList vs) = list_all (wf_record F) vs"
| "wf_record F (PyDict kvs) =
     (distinct (map fst kvs) \<and> list_all (\<lambda>kv. wf_str (fst kv) \<and> wf_record F (snd kv)) kvs)"

lemma printable_hexdigit: "d < 16 \<Longrightarrow> printable (hexdigit d)"
  by (simp add: hexdigit_def printable_def)

lemma printable_hex4: "list_all printable (hex4 n)"
  by (simp add: hex4_def printable_hexdigit)

lemma printable_escape_char: "list_all printable (escape_char c)"
  using printable_hex4
  by (simp add: escape_char_def Let_def) (simp add: printable_def)

lemma printable_encode_basestring_ascii: "list_all printable (encode_basestring_ascii s)"
  by (induction s)
     (simp_all add: encode_basestring_ascii_def printable_escape_char, simp_all add: printable_def)

lemma printable_nat_repr: "list_all printable (nat_repr n)"
proof (induction n rule: nat_repr.induct)
  case (1 n)
  show ?case
  proof (cases "n < 10")
    case True
    then show ?thesis by (simp add: nat_repr.simps [of n] printable_def)
  next
    case False
    have "n mod 10 < 10" by simp
    then have "printable (48 + n mod 10)" unfolding printable_def by linarith
    with False 1 show ?thesis by (simp add: nat_repr.simps [of n])
  qed
qed

lemma printable_int_repr: "list_all printable (int_repr i)"
  by (simp add: int_repr_def printable_nat_repr) (simp add: printable_def)

lemma is_digit_printable: "is_digit c \<Longrightarrow> printable c"
  by (simp add: is_digit_def printable_def)

lemma printable_takeWhile_digit: "list_all printable (takeWhile is_digit s)"
  by (induction s) (simp_all add: is_digit_printable)

lemma printable_match_integer:
  "match_integer s = Some (i, r) \<Longrightarrow> list_all printable i"
  by (auto simp: match_integer_def Let_def printable_takeWhile_digit
           split: list.splits if_splits)
     (simp_all add: printable_def)

lemma printable_match_frac: "match_frac s = (fr, r) \<Longrightarrow> list_all printable fr"
  by (auto simp: match_frac_def printable_takeWhile_digit is_digit_printable
           split: list.splits if_splits)
     (simp_all add: printable_def)

lemma printable_match_exp: "match_exp s = (x, r) \<Longrightarrow> list_all printable x"
  by (auto simp: match_exp_def Let_def printable_takeWhile_digit is_digit_printable
           split: list.splits if_splits)
     (simp_all add: printable_def)

lemma printable_match_number:
  "match_number s = Some (i, fr, x, r) \<Longrightarrow> list_all printable (i @ fr @ x)"
  by (auto simp: match_number_def Let_def split: option.splits prod.splits
           dest: printable_match_integer printable_match_frac printable_match_exp)

lemma printable_float_token: "float_token t \<Longrightarrow> list_all printable t"
  unfolding float_token_def
proof (elim disjE)
  assume "case match_number t of None \<Rightarrow> False
          | Some (integer, frac, exp, e) \<Rightarrow> e = [] \<and> (frac \<noteq> [] \<or> exp \<noteq> [])"
  then obtain i fr x where m: "match_number t = Some (i, fr, x, [])"
    by (auto split: option.splits)
  from match_number_append [OF m] printable_match_number [OF m]
  show ?thesis by simp
qed (simp_all add: printable_def)

lemma printable_json_dumps:
  "wf_record F v \<Longrightarrow> list_all printable (json_dumps F v)"
  "list_all (wf_record F) vs \<Longrightarrow> list_all printable (dumps_items F vs)"
  "list_all (\<lambda>kv. wf_str (fst kv) \<and> wf_record F (snd kv)) kvs
     \<Longrightarrow> list_all printable (dumps_pairs F kvs)"
proof (induction F v and F vs and F kvs rule: json_dumps_dumps_items_dumps_pairs.induct)
  case (4 F x)
  then show ?case by (simp add: wf_float_def printable_float_token)
next
  case (2 F b)
  then show ?case by (simp add: printable_def)
qed (simp_all add: printable_encode_basestring_ascii printable_int_repr, simp_all add: printable_def)

lemma json_dumps_no_newline:
  "wf_record F v \<Longrightarrow> 0x0A \<notin> set (json_dumps F v)"
  using printable_json_dumps(1) [of F v]
  by (auto simp: list_all_iff printable_def)

subsection \<open>Reading back an encoded string\<close>

lemma hexval_hexdigit: "d < 16 \<Longrightarrow> hexval (hexdigit d) = Some d"
  by (simp add: hexval_def hexdigit_def)

lemma horner16:
  "n = q1 * 16 + d \<Longrightarrow> q1 = q2 * 16 + c \<Longrightarrow> q2 = a * 16 + b
   \<Longrightarrow> ((a * 16 + b) * 16 + c) * 16 + d = (n::nat)"
  by simp

lemma decode_uXXXX_hex4:
  assumes "n < 0x10000"
  shows "decode_uXXXX (hex4 n @ r) = Some (n, r)"
proof -
  have lt: "n div 4096 < 16"
    using assms by (simp add: less_mult_imp_div_less)
  then have a: "n div 4096 mod 16 = n div 4096" by simp
  have e1: "n div 256 = n div 16 div 16"
    using div_mult2_eq [of n 16 16] by simp
  have e2: "n div 4096 = n div 16 div 16 div 16"
    using div_mult2_eq [of n 256 16] e1 by simp
  have 1: "n = n div 16 * 16 + n mod 16" by simp
  have 2: "n div 16 = n div 256 * 16 + n div 16 mod 16"
    unfolding e1 by simp
  have 3: "n div 256 = n div 4096 * 16 + n div 256 mod 16"
    unfolding e2 e1 by simp
  have v: "((n div 4096 * 16 + n div 256 mod 16) * 16 + n div 16 mod 16) * 16 + n mod 16 = n"
    by (rule horner16 [OF 1 2 3])
  have "decode_uXXXX (hex4 n @ r)
        = Some (((n div 4096 * 16 + n div 256 mod 16) * 16 + n div 16 mod 16) * 16 + n mod 16, r)"
    by (simp add: decode_uXXXX_def hex4_def hexval_hexdigit a lt)
  then show ?thesis by (simp only: v)
qed

text \<open>The text that follows an escaped character: the escape of the next character, or
  the closing quote.\<close>

lemma join_surrogate_not_high: "\<not> is_high c \<Longrightarrow> join_surrogate c t = Some (c, t)"
  by (simp add: join_surrogate_def)

lemma join_surrogate_quote: "join_surrogate c (0x22 # r) = Some (c, 0x22 # r)"
  by (simp add: join_surrogate_def)

lemma join_surrogate_escape:
  assumes "\<not> is_low d"
  shows "join_surrogate c (escape_char d @ t) = Some (c, escape_char d @ t)"
proof (cases "is_high c")
  case False
  then show ?thesis by (rule join_surrogate_not_high)
next
  case True
  let ?short = "d = 0x5C \<or> d = 0x22 \<or> d = 0x08 \<or> d = 0x0C \<or> d = 0x0A \<or> d = 0x0D \<or> d = 0x09"
  let ?plain = "0x20 \<le> d \<and> d \<le> 0x7E"
  consider (short) ?short
    | (plain) "\<not> ?short" ?plain
    | (bmp) "\<not> ?short" "\<not> ?plain" "d < 0x10000"
    | (astral) "\<not> d < 0x10000"
    by blast
  then show ?thesis
  proof cases
    case short
    then show ?thesis
      by (elim disjE) (simp_all add: join_surrogate_def escape_char_def)
  next
    case plain
    then have e: "escape_char d = [d]" by (simp add: escape_char_def)
    from plain have "d \<noteq> 0x5C" by simp
    then show ?thesis by (simp add: e join_surrogate_def)
  next
    case bmp
    then have e: "escape_char d = [0x5C, 0x75] @ hex4 d"
      by (simp add: escape_char_def)
    show ?thesis
      using assms bmp(3) by (simp add: e join_surrogate_def decode_uXXXX_hex4)
  next
    case astral
    define s1 where "s1 = 0xD800 + (d - 0x10000) div 1024 mod 1024"
    define s2 where "s2 = 0xDC00 + (d - 0x10000) mod 1024"
    have "\<not> d \<le> 0x7E" "d \<noteq> 0x5C" "d \<noteq> 0x22" "d \<noteq> 0x08" "d \<noteq> 0x0C"
      "d \<noteq> 0x0A" "d \<noteq> 0x0D" "d \<noteq> 0x09"
      using astral by simp_all
    then have e: "escape_char d = [0x5C, 0x75] @ hex4 s1 @ [0x5C, 0x75] @ hex4 s2"
      using astral by (simp add: escape_char_def Let_def s1_def s2_def)
    have "s1 < 0xDC00" unfolding s1_def by simp
    then have "s1 < 0x10000" "\<not> is_low s1" by (simp_all add: is_low_def)
    then show ?thesis
      by (simp add: e join_surrogate_def decode_uXXXX_hex4)
  qed
qed

definition follows_ok :: "nat \<Rightarrow> str \<Rightarrow> bool" where
  "follows_ok c t = (is_high c \<longrightarrow> join_surrogate c t = Some (c, t))"

lemma scanstring_escape_char:
  assumes "c < 0x110000" and "join_surrogate c t = Some (c, t)"
  shows "scanstring (escape_char c @ t) = map_option (\<lambda>(u, e). (c # u, e)) (scanstring t)"
proof -
  let ?short = "c = 0x5C \<or> c = 0x22 \<or> c = 0x08 \<or> c = 0x0C \<or> c = 0x0A \<or> c = 0x0D \<or> c = 0x09"
  let ?plain = "0x20 \<le> c \<and> c \<le> 0x7E"
  consider (short) ?short
    | (plain) "\<not> ?short" ?plain
    | (bmp) "\<not> ?short" "\<not> ?plain" "c < 0x10000"
    | (astral) "\<not> c < 0x10000"
    by blast
  then show ?thesis
  proof cases
    case short
    then show ?thesis
      by (elim disjE) (simp_all add: escape_char_def BACKSLASH_def)
  next
    case plain
    then have e: "escape_char c = [c]" by (simp add: escape_char_def)
    from plain show ?thesis by (simp add: e)
  next
    case bmp
    then have e: "escape_char c = [0x5C, 0x75] @ hex4 c"
      by (simp add: escape_char_def)
    show ?thesis
      using bmp(3) assms(2) by (simp add: e decode_uXXXX_hex4)
  next
    case astral
    define n where "n = c - 0x10000"
    define s1 where "s1 = 0xD800 + n div 1024 mod 1024"
    define s2 where "s2 = 0xDC00 + n mod 1024"
    have "\<not> c \<le> 0x7E" "c \<noteq> 0x5C" "c \<noteq> 0x22" "c \<noteq> 0x08" "c \<noteq> 0x0C"
      "c \<noteq> 0x0A" "c \<noteq> 0x0D" "c \<noteq> 0x09"
      using astral by simp_all
    then have e: "escape_char c = [0x5C, 0x75] @ hex4 s1 @ [0x5C, 0x75] @ hex4 s2"
      using astral by (simp add: escape_char_def Let_def s1_def s2_def n_def)
    have n: "n < 0x100000" using assms(1) astral by (simp add: n_def)
    have s1: "s1 < 0x10000" "is_high s1" unfolding s1_def is_high_def by simp_all
    have s2: "s2 < 0x10000" "is_low s2" unfolding s2_def is_low_def by simp_all
    have "n div 1024 mod 1024 = n div 1024"
      using n by (simp add: less_mult_imp_div_less)
    then have "(s1 - 0xD800) * 1024 + (s2 - 0xDC00) = n"
      unfolding s1_def s2_def using div_mult_mod_eq [of n 1024] by simp
    then have "0x10000 + ((s1 - 0xD800) * 1024 + (s2 - 0xDC00)) = c"
      using astral by (simp add: n_def)
    then have j: "join_surrogate s1 ([0x5C, 0x75] @ hex4 s2 @ t) = Some (c, t)"
      using s1 s2 by (simp add: join_surrogate_def decode_uXXXX_hex4)
    show ?thesis
      using s1(1) j by (simp add: e decode_uXXXX_hex4)
  qed
qed

lemma scanstring_encoded:
  "wf_str s \<Longrightarrow> scanstring (concat (map escape_char s) @ 0x22 # r) = Some (s, r)"
proof (induction s rule: wf_str.induct)
  case 1
  then show ?case by simp
next
  case (2 c)
  then show ?case
    by (simp add: scanstring_escape_char join_surrogate_quote)
next
  case (3 c d s)
  then have c: "c < 0x110000" and nl: "\<not> (is_high c \<and> is_low d)" and w: "wf_str (d # s)"
    by simp_all
  have j: "join_surrogate c (concat (map escape_char (d # s)) @ 0x22 # r)
           = Some (c, concat (map escape_char (d # s)) @ 0x22 # r)"
  proof (cases "is_high c")
    case True
    with nl have "\<not> is_low d" by simp
    then show ?thesis using join_surrogate_escape [of d] by simp
  next
    case False
    then show ?thesis by (rule join_surrogate_not_high)
  qed
  have "scanstring (escape_char c @ (concat (map escape_char (d # s)) @ 0x22 # r))
        = map_option (\<lambda>(u, e). (c # u, e))
            (scanstring (concat (map escape_char (d # s)) @ 0x22 # r))"
    using c j by (rule scanstring_escape_char)
  then show ?case using "3.IH" [OF w] by simp
qed

lemma scanstring_encode_basestring_ascii:
  assumes "wf_str s"
  shows "scanstring (tl (encode_basestring_ascii s) @ r) = Some (s, r)"
proof -
  have "tl (encode_basestring_ascii s) @ r = concat (map escape_char s) @ 0x22 # r"
    by (simp add: encode_basestring_ascii_def)
  then show ?thesis
    using scanstring_encoded [OF assms, of r] by (simp only:)
qed

subsection \<open>Reading back an encoded number\<close>

text \<open>What may follow a value in the encoder's output: nothing, a comma, or a closing
  bracket or brace.\<close>

definition delimited :: "str \<Rightarrow> bool" where
  "delimited r = (case r of [] \<Rightarrow> True | c # _ \<Rightarrow> c = 0x2C \<or> c = 0x5D \<or> c = 0x7D)"

lemma delimited_simps [simp]:
  "delimited []" "delimited (0x2C # r)" "delimited (0x5D # r)" "delimited (0x7D # r)"
  by (simp_all add: delimited_def)




















subsection \<open>Reading back an encoded float\<close>










subsection \<open>The first character of an encoded value\<close>






lemma skip_ws_delims [simp]:
  "skip_ws (0x2C # t) = 0x2C # t" "skip_ws (0x5D # t) = 0x5D # t"
  "skip_ws (0x7D # t) = 0x7D # t" "skip_ws (0x3A # t) = 0x3A # t" "skip_ws [] = []"
  by (simp_all add: skip_ws_def is_ws_def)





subsection \<open>\<^verbatim>\<open>dict(pairs)\<close> on distinct keys\<close>




subsection \<open>Reading back an encoded value\<close>













subsection \<open>What the decoder builds\<close>

text \<open>The code points of a text that \<^verbatim>\<open>bytes.decode()\<close> returns: up to U+10FFFF and no
  surrogates.\<close>

definition scalar :: "nat \<Rightarrow> bool" where
  "scalar c = (c < 0x110000 \<and> \<not> is_high c \<and> \<not> is_low c)"

definition valid_text :: "str \<Rightarrow> bool" where
  "valid_text t = (\<forall>c \<in> set t. scalar c)"

text \<open>The assumption on the float library: the float read from a float token is printed
  by \<^verbatim>\<open>floatstr\<close> as a float token that reads back to the same float.\<close>

definition float_lib_ok :: "'f floatlib \<Rightarrow> bool" where
  "float_lib_ok F = (\<forall>t. float_token t \<longrightarrow> wf_float F (py_float F t))"

lemma valid_text_Cons [simp]: "valid_text (c # t) = (scalar c \<and> valid_text t)"
  by (simp add: valid_text_def)

lemma valid_text_Nil [simp]: "valid_text []"
  by (simp add: valid_text_def)

lemma valid_text_subset: "set r \<subseteq> set s \<Longrightarrow> valid_text s \<Longrightarrow> valid_text r"
  by (auto simp: valid_text_def)

lemma utf8_decode_valid: "utf8_decode bs = Some t \<Longrightarrow> valid_text t"
proof (induction bs arbitrary: t rule: utf8_decode.induct)
  case 1
  then show ?case by simp
next
  case (2 b0 bs)
  consider (one) "b0 < 0x80"
    | (two) "\<not> b0 < 0x80" "0xC2 \<le> b0 \<and> b0 \<le> 0xDF"
    | (three) "\<not> b0 \<le> 0xDF" "0xE0 \<le> b0 \<and> b0 \<le> 0xEF"
    | (four) "\<not> b0 \<le> 0xEF" "0xF0 \<le> b0 \<and> b0 \<le> 0xF4"
    | (bad) "\<not> b0 < 0x80" "\<not> (0xC2 \<le> b0 \<and> b0 \<le> 0xDF)" "\<not> (0xE0 \<le> b0 \<and> b0 \<le> 0xEF)"
        "\<not> (0xF0 \<le> b0 \<and> b0 \<le> 0xF4)"
    by linarith
  then show ?case
  proof cases
    case one
    with "2.prems" obtain t' where t: "utf8_decode bs = Some t'" "t = b0 # t'"
      by auto
    from one have "scalar b0" by (simp add: scalar_def is_high_def is_low_def)
    with "2.IH"(1) [OF one t(1)] t(2) show ?thesis by simp
  next
    case two
    with "2.prems" obtain b1 r t' where
      p: "bs = b1 # r" "is_cont b1" "utf8_decode r = Some t'"
         "t = ((b0 - 0xC0) * 64 + (b1 - 0x80)) # t'"
      by (auto split: list.splits if_splits)
    from p(2) have "0x80 \<le> b1" "b1 \<le> 0xBF" by (simp_all add: is_cont_def)
    with two have "(b0 - 0xC0) * 64 + (b1 - 0x80) < 0x800"
      by linarith
    then have "scalar ((b0 - 0xC0) * 64 + (b1 - 0x80))"
      by (simp add: scalar_def is_high_def is_low_def)
    with "2.IH"(2) [OF two p(1) p(2) p(3)] p(4) show ?thesis by simp
  next
    case three
    with "2.prems" obtain b1 b2 r t' where
      p: "bs = b1 # b2 # r" "second_ok b0 b1 \<and> is_cont b2" "utf8_decode r = Some t'"
         "t = ((b0 - 0xE0) * 4096 + (b1 - 0x80) * 64 + (b2 - 0x80)) # t'"
      by (auto split: list.splits if_splits)
    have n80: "\<not> b0 < 0x80" and n2: "\<not> (0xC2 \<le> b0 \<and> b0 \<le> 0xDF)" using three by simp_all
    let ?u = "(b0 - 0xE0) * 4096 + (b1 - 0x80) * 64 + (b2 - 0x80)"
    have b2: "0x80 \<le> b2" "b2 \<le> 0xBF" using p(2) by (simp_all add: is_cont_def)
    have "scalar ?u"
    proof (cases "b0 = 0xED")
      case True
      with p(2) have "0x80 \<le> b1" "b1 \<le> 0x9F" by (simp_all add: second_ok_def)
      with True b2 have "?u < 0xD800" by linarith
      then show ?thesis by (simp add: scalar_def is_high_def is_low_def)
    next
      case False
      with p(2) have b1: "0x80 \<le> b1" "b1 \<le> 0xBF"
        by (auto simp: second_ok_def is_cont_def split: if_splits)
      from False three consider "b0 \<le> 0xEC" | "0xEE \<le> b0" by linarith
      then show ?thesis
      proof cases
        case 1
        with three b1 b2 have "?u < 0xD000" by linarith
        then show ?thesis by (simp add: scalar_def is_high_def is_low_def)
      next
        case 2
        with three b1 b2 have "0xE000 \<le> ?u" "?u < 0x10000" by linarith+
        then show ?thesis by (simp add: scalar_def is_high_def is_low_def)
      qed
    qed
    with "2.IH"(3) [OF n80 n2 three(2) p(1) refl p(2) p(3)] p(4) show ?thesis by simp
  next
    case four
    with "2.prems" obtain b1 b2 b3 r t' where
      p: "bs = b1 # b2 # b3 # r" "second_ok b0 b1 \<and> is_cont b2 \<and> is_cont b3"
         "utf8_decode r = Some t'"
         "t = ((b0 - 0xF0) * 262144 + (b1 - 0x80) * 4096 + (b2 - 0x80) * 64 + (b3 - 0x80)) # t'"
      by (auto split: list.splits if_splits)
    have n80: "\<not> b0 < 0x80" and n2: "\<not> (0xC2 \<le> b0 \<and> b0 \<le> 0xDF)"
      and n3: "\<not> (0xE0 \<le> b0 \<and> b0 \<le> 0xEF)" using four by simp_all
    let ?u = "(b0 - 0xF0) * 262144 + (b1 - 0x80) * 4096 + (b2 - 0x80) * 64 + (b3 - 0x80)"
    have b23: "0x80 \<le> b2" "b2 \<le> 0xBF" "0x80 \<le> b3" "b3 \<le> 0xBF"
      using p(2) by (simp_all add: is_cont_def)
    from four consider "b0 = 0xF0" | "b0 = 0xF4" | "0xF1 \<le> b0 \<and> b0 \<le> 0xF3" by linarith
    then have "0x10000 \<le> ?u \<and> ?u < 0x110000"
    proof cases
      case 1
      with p(2) have "0x90 \<le> b1" "b1 \<le> 0xBF" by (simp_all add: second_ok_def)
      with 1 b23 show ?thesis by (intro conjI; linarith)
    next
      case 2
      with p(2) have "0x80 \<le> b1" "b1 \<le> 0x8F" by (simp_all add: second_ok_def)
      with 2 b23 show ?thesis by (intro conjI; linarith)
    next
      case 3
      with p(2) have "0x80 \<le> b1" "b1 \<le> 0xBF"
        by (auto simp: second_ok_def is_cont_def split: if_splits)
      with 3 b23 show ?thesis by (intro conjI; linarith)
    qed
    then have "scalar ?u" by (simp add: scalar_def is_high_def is_low_def)
    with "2.IH"(4) [OF n80 n2 n3 four(2) p(1) refl refl p(2) p(3)] p(4) show ?thesis by simp
  next
    case bad
    with "2.prems" show ?thesis by simp
  qed
qed

lemma bytes_decode_valid: "bytes_decode data = Inr t \<Longrightarrow> valid_text t"
  by (auto simp: bytes_decode_def split: option.splits dest: utf8_decode_valid)

lemma hexval_less: "hexval c = Some d \<Longrightarrow> d < 16"
  by (auto simp: hexval_def split: if_splits)

lemma decode_uXXXX_less: "decode_uXXXX s = Some (u, r) \<Longrightarrow> u < 0x10000"
proof -
  assume "decode_uXXXX s = Some (u, r)"
  then obtain x y z w where
    h: "x < 16" "y < 16" "z < 16" "w < 16" "u = ((x * 16 + y) * 16 + z) * 16 + w"
    by (auto simp: decode_uXXXX_def split: list.splits option.splits dest!: hexval_less)
  have "((x * 16 + y) * 16 + z) * 16 + w = x * 4096 + y * 256 + z * 16 + w" by simp
  with h show ?thesis by linarith
qed

lemma decode_uXXXX_set: "decode_uXXXX s = Some (u, r) \<Longrightarrow> set r \<subseteq> set s"
  by (auto simp: decode_uXXXX_def split: list.splits option.splits)

lemma join_surrogate_cases:
  assumes "join_surrogate uni s = Some (ch, r)"
  shows "(ch = uni \<and> r = s) \<or> (0x10000 \<le> ch \<and> ch < 0x110000 \<and> set r \<subseteq> set s)"
proof (cases "is_high uni \<and> take 2 s = [0x5C, 0x75]")
  case False
  with assms show ?thesis by (auto simp: join_surrogate_def)
next
  case True
  with assms obtain uni2 r' where d: "decode_uXXXX (drop 2 s) = Some (uni2, r')"
    by (auto simp: join_surrogate_def split: option.splits)
  show ?thesis
  proof (cases "is_low uni2")
    case False
    with assms True d show ?thesis by (simp add: join_surrogate_def)
  next
    case low: True
    with assms True d have c: "ch = 0x10000 + ((uni - 0xD800) * 1024 + (uni2 - 0xDC00))" "r = r'"
      by (simp_all add: join_surrogate_def)
    from True low have "0xD800 \<le> uni" "uni \<le> 0xDBFF" "0xDC00 \<le> uni2" "uni2 \<le> 0xDFFF"
      by (simp_all add: is_high_def is_low_def)
    then have "0x10000 \<le> ch \<and> ch < 0x110000" unfolding c(1) by (intro conjI; linarith)
    moreover have "set r \<subseteq> set s"
      using decode_uXXXX_set [OF d] set_drop_subset [of 2 s] c(2) by blast
    ultimately show ?thesis by simp
  qed
qed

lemma join_surrogate_high:
  assumes "join_surrogate uni s = Some (ch, r)" and "is_high ch"
  shows "ch = uni \<and> r = s
     \<and> (take 2 s = [0x5C, 0x75] \<longrightarrow> (\<exists>uni2 r'. decode_uXXXX (drop 2 s) = Some (uni2, r') \<and> \<not> is_low uni2))"
proof -
  from join_surrogate_cases [OF assms(1)] assms(2) have e: "ch = uni" "r = s"
    by (auto simp: is_high_def)
  show ?thesis
  proof (cases "take 2 s = [0x5C, 0x75]")
    case False
    with e show ?thesis by simp
  next
    case True
    with assms e obtain uni2 r' where d: "decode_uXXXX (drop 2 s) = Some (uni2, r')"
      by (auto simp: join_surrogate_def split: option.splits)
    have "\<not> is_low uni2"
    proof
      assume "is_low uni2"
      with assms True d e have "uni = 0x10000 + ((uni - 0xD800) * 1024 + (uni2 - 0xDC00))"
        by (simp add: join_surrogate_def)
      with assms(2) e show False by (simp add: is_high_def)
    qed
    with d e show ?thesis by blast
  qed
qed

lemma BACKSLASH_less: "BACKSLASH esc = Some ch \<Longrightarrow> ch < 0x80"
  by (auto simp: BACKSLASH_def split: if_splits)

text \<open>A low surrogate at the head of a decoded string was written as a \<^verbatim>\<open>\u\<close> escape.\<close>

lemma scanstring_low_head:
  assumes "valid_text s" and "scanstring s = Some (c # t, r)" and "is_low c"
  shows "take 2 s = [0x5C, 0x75] \<and> (\<exists>r'. decode_uXXXX (drop 2 s) = Some (c, r'))"
proof (cases s)
  case Nil
  with assms(2) show ?thesis by simp
next
  case (Cons c0 cs)
  have nq: "c0 \<noteq> 0x22" using assms(2) Cons by auto
  show ?thesis
  proof (cases "c0 = 0x5C")
    case False
    with assms(2) Cons nq have "c = c0"
      by (auto split: if_splits)
    with assms(1,3) Cons show ?thesis by (simp add: scalar_def)
  next
    case bs: True
    show ?thesis
    proof (cases cs)
      case Nil
      with assms(2) Cons bs show ?thesis by simp
    next
      case cs: (Cons esc r0)
      show ?thesis
      proof (cases "esc = 0x75")
        case False
        with assms(2) Cons bs cs obtain ch where "BACKSLASH esc = Some ch" "c = ch"
          by (auto split: option.splits)
        with BACKSLASH_less [of esc ch] assms(3) show ?thesis by (simp add: is_low_def)
      next
        case True
        with assms(2) Cons bs cs obtain uni r1 ch r2 where
          d: "decode_uXXXX r0 = Some (uni, r1)" and j: "join_surrogate uni r1 = Some (ch, r2)"
          and c: "c = ch"
          by (auto split: option.splits)
        from join_surrogate_cases [OF j] assms(3) c have "ch = uni"
          by (auto simp: is_low_def)
        with d c Cons bs cs True show ?thesis by simp
      qed
    qed
  qed
qed

lemma wf_str_Cons:
  "wf_str (c # t) =
     (c < 0x110000 \<and> wf_str t \<and> (is_high c \<longrightarrow> (case t of [] \<Rightarrow> True | d # _ \<Rightarrow> \<not> is_low d)))"
  by (cases t) auto

lemma scanstring_wf:
  "valid_text s \<Longrightarrow> scanstring s = Some (t, r) \<Longrightarrow> wf_str t \<and> set r \<subseteq> set s"
proof (induction s arbitrary: t r rule: scanstring.induct)
  case 1
  then show ?case by simp
next
  case (2 c cs)
  have vcs: "valid_text cs" and sc: "scalar c" using "2.prems"(1) by simp_all
  show ?case
  proof (cases "c = 0x22")
    case True
    with "2.prems"(2) show ?thesis by auto
  next
    case nq: False
    show ?thesis
    proof (cases "c = 0x5C")
      case False
      with "2.prems"(2) nq obtain t' where
        p: "\<not> c < 0x20" "scanstring cs = Some (t', r)" "t = c # t'"
        by (auto split: if_splits)
      from "2.IH"(3) [OF nq False p(1) vcs p(2)] have ih: "wf_str t'" "set r \<subseteq> set cs"
        by simp_all
      from sc have "c < 0x110000" "\<not> is_high c" by (simp_all add: scalar_def)
      with ih p(3) show ?thesis by (auto simp: wf_str_Cons)
    next
      case bs: True
      show ?thesis
      proof (cases cs)
        case Nil
        with "2.prems"(2) bs show ?thesis by simp
      next
        case cs: (Cons esc r0)
        have vr0: "valid_text r0" using vcs cs by simp
        show ?thesis
        proof (cases "esc = 0x75")
          case False
          with "2.prems"(2) bs cs obtain ch t' where
            p: "BACKSLASH esc = Some ch" "scanstring r0 = Some (t', r)" "t = ch # t'"
            by (auto split: option.splits)
          from "2.IH"(1) [OF nq bs cs False p(1) vr0 p(2)] have ih: "wf_str t'" "set r \<subseteq> set r0"
            by simp_all
          from BACKSLASH_less [OF p(1)] have "ch < 0x110000" "\<not> is_high ch"
            by (simp_all add: is_high_def)
          with ih p(3) cs show ?thesis by (auto simp: wf_str_Cons)
        next
          case u: True
          with "2.prems"(2) bs cs obtain uni r1 ch r2 t' where
            d: "decode_uXXXX r0 = Some (uni, r1)" and j: "join_surrogate uni r1 = Some (ch, r2)"
            and s: "scanstring r2 = Some (t', r)" and t: "t = ch # t'"
            by (auto split: option.splits)
          have r1: "set r1 \<subseteq> set r0" using d by (rule decode_uXXXX_set)
          have r2: "set r2 \<subseteq> set r1" using join_surrogate_cases [OF j] by auto
          have vr2: "valid_text r2" using valid_text_subset r1 r2 vr0 by blast
          have "\<not> esc \<noteq> 0x75" using u by simp
          from "2.IH"(2) [OF nq bs cs this d _ j _ vr2 s]
          have ih: "wf_str t'" "set r \<subseteq> set r2" by simp_all
          have lt: "ch < 0x110000"
            using join_surrogate_cases [OF j] decode_uXXXX_less [OF d] by auto
          have nolow: "is_high ch \<Longrightarrow> (case t' of [] \<Rightarrow> True | d # _ \<Rightarrow> \<not> is_low d)"
          proof (cases t')
            case Nil
            then show ?thesis by simp
          next
            case (Cons d' t'')
            assume h: "is_high ch"
            from join_surrogate_high [OF j h] have
              e: "r2 = r1"
              and n: "take 2 r1 = [0x5C, 0x75] \<longrightarrow>
                 (\<exists>uni2 r'. decode_uXXXX (drop 2 r1) = Some (uni2, r') \<and> \<not> is_low uni2)"
              by simp_all
            have "\<not> is_low d'"
            proof
              assume low: "is_low d'"
              from scanstring_low_head [OF vr2 s [unfolded Cons] low] e n low
              show False by auto
            qed
            with Cons show ?thesis by simp
          qed
          from ih lt nolow t r1 r2 cs show ?thesis by (auto simp: wf_str_Cons)
        qed
      qed
    qed
  qed
qed

lemma skip_ws_set: "set (skip_ws s) \<subseteq> set s"
  by (auto simp: skip_ws_def dest: set_dropWhileD)

lemma skip_ws_Cons_set: "skip_ws s = c # r \<Longrightarrow> set r \<subseteq> set s"
  using skip_ws_set [of s] by auto

lemma scan_atom_set: "scan_atom F s = Some (v, e) \<Longrightarrow> set e \<subseteq> set s"
  unfolding scan_atom_def
  by (auto split: if_splits option.splits dest!: match_number_append dest: in_set_dropD)

subsection \<open>The text of a scanned number is a token\<close>

definition no_digit_next :: "str \<Rightarrow> bool" where
  "no_digit_next u = (case u of [] \<Rightarrow> True | c # _ \<Rightarrow> \<not> is_digit c)"

lemma takeWhile_digit_idem:
  "no_digit_next u \<Longrightarrow> takeWhile is_digit (takeWhile is_digit r @ u) = takeWhile is_digit r"
  by (induction r) (auto simp: no_digit_next_def split: list.splits)

lemma dropWhile_digit_idem:
  "no_digit_next u \<Longrightarrow> dropWhile is_digit (takeWhile is_digit r @ u) = u"
  by (induction r) (auto simp: no_digit_next_def split: list.splits)

lemma match_integer_again:
  assumes "match_integer s = Some (i, s1)" and "no_digit_next u"
  shows "match_integer (i @ u) = Some (i, u)"
proof -
  have plain: "match_integer (c # r) = Some (i, s1) \<Longrightarrow> c \<noteq> 0x2D
               \<Longrightarrow> match_integer (i @ u) = Some (i, u)" for c r
    using assms(2)
    by (auto simp: match_integer_def takeWhile_digit_idem dropWhile_digit_idem
             split: if_splits)
  show ?thesis
  proof (cases s)
    case Nil
    with assms(1) show ?thesis by (simp add: match_integer_def)
  next
    case (Cons c r)
    show ?thesis
    proof (cases "c = 0x2D")
      case False
      with assms(1) Cons show ?thesis using plain by blast
    next
      case True
      show ?thesis
      proof (cases r)
        case Nil
        with assms(1) Cons True show ?thesis by (simp add: match_integer_def)
      next
        case r: (Cons d r')
        with assms Cons True show ?thesis
          by (auto simp: match_integer_def takeWhile_digit_idem dropWhile_digit_idem
                   split: if_splits)
      qed
    qed
  qed
qed

lemma match_frac_again:
  assumes "match_frac s = (fr, r)" and "fr \<noteq> []" and "no_digit_next u"
  shows "match_frac (fr @ u) = (fr, u)"
  using assms
  by (auto simp: match_frac_def takeWhile_digit_idem dropWhile_digit_idem
           split: list.splits if_splits)

lemma match_frac_head: "match_frac s = (fr, r) \<Longrightarrow> fr = [] \<or> (\<exists>t. fr = 0x2E # t)"
  by (auto simp: match_frac_def split: list.splits if_splits)

lemma match_exp_head:
  "match_exp s = (x, r) \<Longrightarrow> x = [] \<or> (\<exists>t. x = 0x65 # t \<or> x = 0x45 # t)"
  by (auto simp: match_exp_def Let_def split: list.splits if_splits)

lemma match_exp_again:
  assumes "match_exp s = (x, r)"
  shows "match_exp x = (x, [])"
proof (cases s)
  case Nil
  with assms show ?thesis by (simp add: match_exp_def)
next
  case s: (Cons e s1)
  have nd: "no_digit_next []" by (simp add: no_digit_next_def)
  show ?thesis
  proof (cases "e = 0x65 \<or> e = 0x45")
    case False
    with assms s show ?thesis by (auto simp: match_exp_def)
  next
    case e: True
    show ?thesis
    proof (cases s1)
      case Nil
      with assms s e show ?thesis by (auto simp: match_exp_def)
    next
      case s1: (Cons c s2)
      show ?thesis
      proof (cases "c = 0x2B \<or> c = 0x2D")
        case False
        with assms s e s1 show ?thesis
          using takeWhile_digit_idem [OF nd] dropWhile_digit_idem [OF nd]
          by (auto simp: match_exp_def split: if_splits)
      next
        case sign: True
        show ?thesis
        proof (cases s2)
          case Nil
          with assms s e s1 sign show ?thesis by (auto simp: match_exp_def)
        next
          case (Cons d s3)
          with assms s e s1 sign show ?thesis
            using takeWhile_digit_idem [OF nd] dropWhile_digit_idem [OF nd]
            by (auto simp: match_exp_def split: if_splits)
        qed
      qed
    qed
  qed
qed

lemma match_frac_no_dot: "x = [] \<or> (\<exists>t. x = 0x65 # t \<or> x = 0x45 # t) \<Longrightarrow> match_frac x = ([], x)"
  by (auto simp: match_frac_def split: list.splits)

lemma match_number_again:
  assumes "match_number s = Some (i, fr, x, e)"
  shows "match_number (i @ fr @ x) = Some (i, fr, x, [])"
proof -
  from assms obtain s1 s2 where
    i: "match_integer s = Some (i, s1)" and f: "match_frac s1 = (fr, s2)"
    and x: "match_exp s2 = (x, e)"
    by (auto simp: match_number_def Let_def split: option.splits prod.splits)
  have hx: "x = [] \<or> (\<exists>t. x = 0x65 # t \<or> x = 0x45 # t)" using x by (rule match_exp_head)
  then have ndx: "no_digit_next x" by (auto simp: no_digit_next_def is_digit_def)
  have ndfx: "no_digit_next (fr @ x)"
    using match_frac_head [OF f] ndx by (auto simp: no_digit_next_def is_digit_def)
  have 1: "match_integer (i @ fr @ x) = Some (i, fr @ x)"
    using i ndfx by (rule match_integer_again)
  have 2: "match_frac (fr @ x) = (fr, x)"
  proof (cases "fr = []")
    case True
    then show ?thesis using match_frac_no_dot [OF hx] by simp
  next
    case False
    with f show ?thesis using ndx by (rule match_frac_again)
  qed
  have 3: "match_exp x = (x, [])" using x by (rule match_exp_again)
  show ?thesis by (simp add: match_number_def 1 2 3)
qed

lemma scan_atom_wf:
  assumes "float_lib_ok F" and "scan_atom F s = Some (v, e)"
  shows "wf_record F v"
proof -
  have tok: "float_token t \<Longrightarrow> wf_float F (py_float F t)" for t
    using assms(1) by (simp add: float_lib_ok_def)
  have c: "wf_float F (py_float F [0x4E, 0x61, 0x4E])"
    "wf_float F (py_float F [0x49, 0x6E, 0x66, 0x69, 0x6E, 0x69, 0x74, 0x79])"
    "wf_float F (py_float F [0x2D, 0x49, 0x6E, 0x66, 0x69, 0x6E, 0x69, 0x74, 0x79])"
    by (rule tok, simp add: float_token_def)+
  have n: "wf_float F (py_float F (i @ fr @ x))"
    if "match_number s = Some (i, fr, x, r)" "fr \<noteq> [] \<or> x \<noteq> []" for i fr x r
    using match_number_again [OF that(1)] that(2) by (intro tok) (auto simp: float_token_def)
  show ?thesis
  proof (cases "match_number s")
    case None
    with assms(2) show ?thesis
      unfolding scan_atom_def by (auto split: if_splits simp: c)
  next
    case (Some q)
    obtain i fr x r where q: "q = (i, fr, x, r)" by (cases q)
    show ?thesis
    proof (cases "fr \<noteq> [] \<or> x \<noteq> []")
      case True
      from n [OF Some [unfolded q] True] assms(2) Some q True show ?thesis
        unfolding scan_atom_def by (auto split: if_splits)
    next
      case False
      with assms(2) Some q show ?thesis
        unfolding scan_atom_def by (auto split: if_splits)
    qed
  qed
qed

subsection \<open>The keys of a decoded object\<close>

lemma dict_set_keys: "fst ` set (dict_set d k v) = insert k (fst ` set d)"
  by (induction d k v rule: dict_set.induct) auto

lemma dict_set_distinct: "distinct (map fst d) \<Longrightarrow> distinct (map fst (dict_set d k v))"
proof (induction d k v rule: dict_set.induct)
  case (1 k v)
  then show ?case by simp
next
  case (2 k' v' d k v)
  then show ?case using dict_set_keys [of d k v] by (auto simp: image_iff)
qed

lemma dict_set_subset: "set (dict_set d k v) \<subseteq> insert (k, v) (set d)"
  by (induction d k v rule: dict_set.induct) auto

lemma foldl_dict_set:
  "distinct (map fst d) \<Longrightarrow> set d \<subseteq> A \<Longrightarrow> set ps \<subseteq> A
   \<Longrightarrow> distinct (map fst (foldl (\<lambda>d (k, v). dict_set d k v) d ps))
       \<and> set (foldl (\<lambda>d (k, v). dict_set d k v) d ps) \<subseteq> A"
proof (induction ps arbitrary: d)
  case Nil
  then show ?case by simp
next
  case (Cons p ps)
  obtain k v where p: "p = (k, v)" by (cases p)
  have "distinct (map fst (dict_set d k v))" using Cons.prems(1) by (rule dict_set_distinct)
  moreover have "set (dict_set d k v) \<subseteq> A"
    using dict_set_subset [of d k v] Cons.prems(2,3) p by auto
  moreover have "set ps \<subseteq> A" using Cons.prems(3) by simp
  ultimately show ?case using Cons.IH [of "dict_set d k v"] by (simp add: p)
qed

lemma dict_of_pairs_wf:
  "distinct (map fst (dict_of_pairs ps))" "set (dict_of_pairs ps) \<subseteq> set ps"
  using foldl_dict_set [of "[]" "set ps" ps] by (simp_all add: dict_of_pairs_def)

lemma list_all_dict_of_pairs: "list_all P ps \<Longrightarrow> list_all P (dict_of_pairs ps)"
  using dict_of_pairs_wf(2) [of ps] by (auto simp: list_all_iff)

subsection \<open>Every decoded record is well-formed\<close>

lemma scan_wf:
  "float_lib_ok F \<Longrightarrow> valid_text s \<Longrightarrow> scan_once F s = Some (v, e)
     \<Longrightarrow> wf_record F v \<and> set e \<subseteq> set s"
  "float_lib_ok F \<Longrightarrow> valid_text s1 \<Longrightarrow> array_items F s1 = Some (vs, e1)
     \<Longrightarrow> list_all (wf_record F) vs \<and> set e1 \<subseteq> set s1"
  "float_lib_ok F \<Longrightarrow> valid_text s2 \<Longrightarrow> object_pairs F s2 = Some (ps, e2)
     \<Longrightarrow> list_all (\<lambda>kv. wf_str (fst kv) \<and> wf_record F (snd kv)) ps \<and> set e2 \<subseteq> set s2"
proof (induction F s and F s1 and F s2 arbitrary: v e and vs e1 and ps e2
       rule: scan_once_array_items_object_pairs.induct)
  case (1 F s)
  note fl = "1.prems"(1) and vt = "1.prems"(2) and res = "1.prems"(3)
  show ?case
  proof (cases s)
    case Nil
    with res show ?thesis by (simp add: scan_once.simps [of F "[]"])
  next
    case (Cons c cs)
    have vcs: "valid_text cs" using vt Cons by simp
    have eq: "(if c = 0x22 then
            (case scanstring cs of None \<Rightarrow> None | Some (t, e) \<Rightarrow> Some (PyStr t, e))
          else if c = 0x7B then
            (case skip_ws cs of
               [] \<Rightarrow> None
             | c' # r \<Rightarrow>
                 if c' = 0x7D then Some (PyDict [], r)
                 else if c' = 0x22 then
                   (case object_pairs F r of
                      None \<Rightarrow> None
                    | Some (pairs, e) \<Rightarrow> Some (PyDict (dict_of_pairs pairs), e))
                 else None)
          else if c = 0x5B then
            (case skip_ws cs of
               [] \<Rightarrow> None
             | c' # r \<Rightarrow>
                 if c' = 0x5D then Some (PyList [], r)
                 else
                   (case array_items F (c' # r) of
                      None \<Rightarrow> None
                    | Some (vals, e) \<Rightarrow> Some (PyList vals, e)))
          else scan_atom F (c # cs)) = Some (v, e)"
      using res Cons by (simp add: scan_once.simps [of F "c # cs"])
    consider (str) "c = 0x22" | (obj) "c = 0x7B" | (arr) "c = 0x5B"
      | (atom) "c \<noteq> 0x22" "c \<noteq> 0x7B" "c \<noteq> 0x5B"
      by blast
    then show ?thesis
    proof cases
      case str
      with eq obtain t where t: "scanstring cs = Some (t, e)" "v = PyStr t"
        by (auto split: option.splits)
      from scanstring_wf [OF vcs t(1)] t(2) Cons show ?thesis by auto
    next
      case obj
      show ?thesis
      proof (cases "skip_ws cs")
        case Nil
        with eq obj show ?thesis by simp
      next
        case sk: (Cons c' r)
        have sr: "set r \<subseteq> set cs" using sk by (rule skip_ws_Cons_set)
        show ?thesis
        proof (cases "c' = 0x7D")
          case True
          with eq obj sk sr Cons show ?thesis by auto
        next
          case False
          with eq obj sk obtain ps where
            q: "c' = 0x22" "object_pairs F r = Some (ps, e)" "v = PyDict (dict_of_pairs ps)"
            by (auto split: if_splits option.splits)
          have vr: "valid_text r" using sr vcs by (rule valid_text_subset)
          have "list_all (\<lambda>kv. wf_str (fst kv) \<and> wf_record F (snd kv)) ps \<and> set e \<subseteq> set r"
            using "1.IH"(1) [OF Cons _ obj sk False q(1) fl vr q(2)] obj by simp
          with q(3) sr Cons show ?thesis
            by (auto simp: dict_of_pairs_wf(1) list_all_dict_of_pairs)
        qed
      qed
    next
      case arr
      show ?thesis
      proof (cases "skip_ws cs")
        case Nil
        with eq arr show ?thesis by simp
      next
        case sk: (Cons c' r)
        have sr: "set (c' # r) \<subseteq> set cs" using skip_ws_set [of cs] sk by simp
        show ?thesis
        proof (cases "c' = 0x5D")
          case True
          with eq arr sk sr Cons show ?thesis by auto
        next
          case False
          with eq arr sk obtain vs where
            q: "array_items F (c' # r) = Some (vs, e)" "v = PyList vs"
            by (auto split: if_splits option.splits)
          have vr: "valid_text (c' # r)" using sr vcs by (rule valid_text_subset)
          have "list_all (wf_record F) vs \<and> set e \<subseteq> set (c' # r)"
            using "1.IH"(2) [OF Cons _ _ arr sk False fl vr q(1)] arr by simp
          with q(2) sr Cons show ?thesis by auto
        qed
      qed
    next
      case atom
      with eq have a: "scan_atom F (c # cs) = Some (v, e)" by simp
      from scan_atom_wf [OF fl a] scan_atom_set [OF a] Cons show ?thesis by simp
    qed
  qed
next
  case (2 F s)
  note fl = "2.prems"(1) and vt = "2.prems"(2)
  note eq = "2.prems"(3) [unfolded array_items.simps [of F s]]
  from eq obtain v e0 where so: "scan_once F s = Some (v, e0)"
    by (auto split: option.splits)
  have ih1: "wf_record F v" "set e0 \<subseteq> set s" using "2.IH"(1) [OF fl vt so] by simp_all
  from eq so obtain c r where sk: "skip_ws e0 = c # r"
    by (auto split: list.splits)
  have sr: "set r \<subseteq> set e0" using sk by (rule skip_ws_Cons_set)
  show ?case
  proof (cases "c = 0x5D")
    case True
    with eq so sk sr ih1 show ?thesis by auto
  next
    case False
    with eq so sk obtain vs' where
      q: "c = 0x2C" "array_items F (skip_ws r) = Some (vs', e1)" "vs = v # vs'"
      by (auto split: if_splits option.splits)
    have s3: "set (skip_ws r) \<subseteq> set s" using skip_ws_set [of r] sr ih1(2) by blast
    then have vr: "valid_text (skip_ws r)" using vt by (rule valid_text_subset)
    have "list_all (wf_record F) vs' \<and> set e1 \<subseteq> set (skip_ws r)"
      using "2.IH"(2) [OF so _ sk False q(1) fl vr q(2)] by simp
    with q(3) ih1(1) s3 show ?thesis by auto
  qed
next
  case (3 F s)
  note fl = "3.prems"(1) and vt = "3.prems"(2)
  note eq = "3.prems"(3) [unfolded object_pairs.simps [of F s]]
  from eq obtain key e0 where ss: "scanstring s = Some (key, e0)"
    by (auto split: option.splits)
  have k: "wf_str key" "set e0 \<subseteq> set s" using scanstring_wf [OF vt ss] by simp_all
  from eq ss obtain c r where sk: "skip_ws e0 = c # r"
    by (auto split: list.splits)
  have sr: "set r \<subseteq> set e0" using sk by (rule skip_ws_Cons_set)
  from eq ss sk have c: "\<not> c \<noteq> 0x3A" by (auto split: if_splits)
  from eq ss sk c obtain v e1 where so: "scan_once F (skip_ws r) = Some (v, e1)"
    by (auto split: option.splits)
  have s1: "set (skip_ws r) \<subseteq> set s" using skip_ws_set [of r] sr k(2) by blast
  then have v1: "valid_text (skip_ws r)" using vt by (rule valid_text_subset)
  have ih1: "wf_record F v" "set e1 \<subseteq> set (skip_ws r)"
    using "3.IH"(1) [OF ss _ sk c fl v1 so] by simp_all
  from eq ss sk c so obtain c1 r1 where sk1: "skip_ws e1 = c1 # r1"
    by (auto split: list.splits)
  have sr1: "set r1 \<subseteq> set e1" using sk1 by (rule skip_ws_Cons_set)
  show ?case
  proof (cases "c1 = 0x7D")
    case True
    with eq ss sk c so sk1 sr1 ih1 s1 k(1) show ?thesis by auto
  next
    case False
    with eq ss sk c so sk1 have c1: "\<not> c1 \<noteq> 0x2C" by (auto split: if_splits)
    from eq ss sk c so sk1 False c1 obtain c2 r2 where sk2: "skip_ws r1 = c2 # r2"
      by (auto split: list.splits)
    have sr2: "set r2 \<subseteq> set r1" using sk2 by (rule skip_ws_Cons_set)
    from eq ss sk c so sk1 False c1 sk2 have c2: "\<not> c2 \<noteq> 0x22" by (auto split: if_splits)
    from eq ss sk c so sk1 False c1 sk2 c2 obtain ps' where
      q: "object_pairs F r2 = Some (ps', e2)" "ps = (key, v) # ps'"
      by (auto split: option.splits)
    have s2: "set r2 \<subseteq> set s" using sr2 sr1 ih1(2) s1 by blast
    then have v2: "valid_text r2" using vt by (rule valid_text_subset)
    have "list_all (\<lambda>kv. wf_str (fst kv) \<and> wf_record F (snd kv)) ps' \<and> set e2 \<subseteq> set r2"
      using "3.IH"(2) [OF ss _ sk c so _ sk1 False c1 sk2 c2 fl v2 q(1)] by simp
    with q(2) k(1) ih1(1) s2 show ?thesis by auto
  qed
qed

lemma json_loads_wf:
  assumes "float_lib_ok F" and "valid_text t" and "json_loads F t = Inr obj"
  shows "wf_record F obj"
proof -
  from assms(3) obtain e where s: "scan_once F (skip_ws t) = Some (obj, e)"
    by (auto simp: json_loads_def decode_def split: if_splits option.splits)
  have "valid_text (skip_ws t)" using skip_ws_set assms(2) by (rule valid_text_subset)
  from scan_wf(1) [OF assms(1) this s] show ?thesis by simp
qed

text \<open>Every record the validation step accepts is well-formed.\<close>

lemma validator_wf:
  assumes "float_lib_ok F" and "validator F data = Inr obj"
  shows "wf_record F obj"
proof -
  from assms(2) obtain t where t: "bytes_decode data = Inr t" "json_loads F t = Inr obj"
    by (auto simp: validator_def split: sum.splits)
  from json_loads_wf [OF assms(1) bytes_decode_valid [OF t(1)] t(2)] show ?thesis .
qed

lemma float_lib_ok_text_floats: "float_lib_ok text_floats"
  by (simp add: float_lib_ok_def wf_float_def text_floats_def)

subsection \<open>Runs of the loop\<close>

text \<open>The records decoded from the datagrams of a run, in the order of receipt.\<close>

definition decoded :: "'f floatlib \<Rightarrow> (datagram \<times> fault) list \<Rightarrow> 'f pyval list" where
  "decoded F evs =
     List.map_filter
       (\<lambda>ev. case validator F (fst (recvfrom 65535 (fst ev))) of
               Inr obj \<Rightarrow> Some obj
             | Inl e \<Rightarrow> None)
       evs"


lemma line_count_line: "0x0A \<notin> set l \<Longrightarrow> line_count (l @ [0x0A]) = 1"
  by (auto simp: line_count_def filter_empty_conv)





lemma decoded_Nil [simp]: "decoded F [] = []"
  by (simp add: decoded_def List.map_filter_simps)






subsection \<open>Text after a value\<close>

lemma skip_ws_append: "skip_ws s = c # r \<Longrightarrow> skip_ws (s @ y) = c # r @ y"
  by (induction s) (auto simp: skip_ws_def split: if_splits)

lemma skip_ws_append_ws: "skip_ws e = [] \<Longrightarrow> skip_ws (e @ y) = skip_ws y"
  by (induction e) (auto simp: skip_ws_def split: if_splits)

lemma decode_uXXXX_append:
  "decode_uXXXX s = Some (u, r) \<Longrightarrow> decode_uXXXX (s @ y) = Some (u, r @ y)"
  by (auto simp: decode_uXXXX_def split: list.splits option.splits)

lemma scanstring_single: "scanstring [c] = Some q \<Longrightarrow> c = 0x22"
  by (auto split: if_splits)

lemma scanstring_take2:
  assumes "scanstring r = Some q" and "take 2 r \<noteq> [0x5C, 0x75]"
  shows "take 2 (r @ y) \<noteq> [0x5C, 0x75]"
proof (cases r)
  case Nil
  with assms(1) show ?thesis by simp
next
  case (Cons c r')
  show ?thesis
  proof (cases r')
    case Nil
    with assms(1) Cons have "c = 0x22" using scanstring_single by blast
    with Cons Nil show ?thesis by simp
  next
    case (Cons d r'')
    with assms(2) \<open>r = c # r'\<close> show ?thesis by simp
  qed
qed

lemma join_surrogate_append:
  assumes "join_surrogate uni r1 = Some (ch, r2)" and "scanstring r2 = Some q"
  shows "join_surrogate uni (r1 @ y) = Some (ch, r2 @ y)"
proof (cases "is_high uni")
  case False
  with assms(1) show ?thesis by (simp add: join_surrogate_def)
next
  case h: True
  show ?thesis
  proof (cases "take 2 r1 = [0x5C, 0x75]")
    case False
    with assms(1) h have e: "ch = uni" "r2 = r1" by (simp_all add: join_surrogate_def)
    from scanstring_take2 [OF assms(2) [unfolded e(2)] False, of y] e h
    show ?thesis by (simp add: join_surrogate_def)
  next
    case True
    then have l: "2 \<le> length r1" by (cases r1; cases "tl r1") auto
    with True have t: "take 2 (r1 @ y) = [0x5C, 0x75]" "drop 2 (r1 @ y) = drop 2 r1 @ y"
      by simp_all
    from assms(1) h True obtain uni2 r' where d: "decode_uXXXX (drop 2 r1) = Some (uni2, r')"
      by (auto simp: join_surrogate_def split: option.splits)
    from decode_uXXXX_append [OF d, of y] assms(1) h True d t show ?thesis
      by (auto simp: join_surrogate_def split: if_splits)
  qed
qed

lemma scanstring_append:
  "scanstring s = Some (t, e) \<Longrightarrow> scanstring (s @ y) = Some (t, e @ y)"
proof (induction s arbitrary: t e rule: scanstring.induct)
  case 1
  then show ?case by simp
next
  case (2 c cs)
  show ?case
  proof (cases "c = 0x22")
    case True
    with "2.prems" show ?thesis by auto
  next
    case nq: False
    show ?thesis
    proof (cases "c = 0x5C")
      case False
      with "2.prems" nq obtain t' where
        p: "\<not> c < 0x20" "scanstring cs = Some (t', e)" "t = c # t'"
        by (auto split: if_splits)
      from "2.IH"(3) [OF nq False p(1) p(2)] nq False p show ?thesis by simp
    next
      case bs: True
      show ?thesis
      proof (cases cs)
        case Nil
        with "2.prems" bs show ?thesis by simp
      next
        case cs: (Cons esc r0)
        show ?thesis
        proof (cases "esc = 0x75")
          case False
          with "2.prems" bs cs obtain ch t' where
            p: "BACKSLASH esc = Some ch" "scanstring r0 = Some (t', e)" "t = ch # t'"
            by (auto split: option.splits)
          from "2.IH"(1) [OF nq bs cs False p(1) p(2)] bs cs False p show ?thesis by simp
        next
          case u: True
          with "2.prems" bs cs obtain uni r1 ch r2 t' where
            d: "decode_uXXXX r0 = Some (uni, r1)" and j: "join_surrogate uni r1 = Some (ch, r2)"
            and s: "scanstring r2 = Some (t', e)" and t: "t = ch # t'"
            by (auto split: option.splits)
          have "\<not> esc \<noteq> 0x75" using u by simp
          from "2.IH"(2) [OF nq bs cs this d _ j _ s]
          have ih: "scanstring (r2 @ y) = Some (t', e @ y)" by simp
          from decode_uXXXX_append [OF d, of y] join_surrogate_append [OF j s, of y] ih
            bs cs u t
          show ?thesis by simp
        qed
      qed
    qed
  qed
qed

text \<open>What follows a value inside an array or an object: white space, a comma, or a
  closing bracket or brace.\<close>

definition stops :: "str \<Rightarrow> bool" where
  "stops e = (case e of [] \<Rightarrow> False
              | c # _ \<Rightarrow> is_ws c \<or> c = 0x2C \<or> c = 0x5D \<or> c = 0x7D)"

lemma stops_skip_ws:
  "skip_ws e = c # r \<Longrightarrow> c = 0x2C \<or> c = 0x5D \<or> c = 0x7D \<Longrightarrow> stops e"
  by (cases e) (auto simp: stops_def skip_ws_def split: if_splits)

lemma stops_Cons: "stops e \<Longrightarrow> \<exists>c r. e = c # r \<and> \<not> is_digit c \<and> c \<noteq> 0x2E \<and> c \<noteq> 0x65
   \<and> c \<noteq> 0x45 \<and> c \<noteq> 0x2B \<and> c \<noteq> 0x2D"
  by (cases e) (auto simp: stops_def is_ws_def is_digit_def)

lemma takeWhile_digit_stop:
  "dropWhile is_digit r \<noteq> [] \<Longrightarrow> takeWhile is_digit (r @ y) = takeWhile is_digit r"
  by (induction r) auto

lemma dropWhile_digit_stop:
  "dropWhile is_digit r \<noteq> [] \<Longrightarrow> dropWhile is_digit (r @ y) = dropWhile is_digit r @ y"
  by (induction r) auto

lemma match_integer_stop:
  assumes "match_integer s = Some (i, r0)" and "r0 \<noteq> []"
  shows "match_integer (s @ y) = Some (i, r0 @ y)"
proof (cases s)
  case Nil
  with assms show ?thesis by (simp add: match_integer_def)
next
  case (Cons c t)
  show ?thesis
  proof (cases "c = 0x2D")
    case False
    with assms Cons show ?thesis
      by (auto simp: match_integer_def takeWhile_digit_stop dropWhile_digit_stop
               split: if_splits)
  next
    case True
    show ?thesis
    proof (cases t)
      case Nil
      with assms Cons True show ?thesis by (simp add: match_integer_def)
    next
      case (Cons d t')
      with assms \<open>s = c # t\<close> True show ?thesis
        by (auto simp: match_integer_def takeWhile_digit_stop dropWhile_digit_stop
                 split: if_splits)
    qed
  qed
qed

lemma match_frac_stop:
  assumes "match_frac s = (fr, r0)" and "r0 \<noteq> []" and "fr = [] \<longrightarrow> hd r0 \<noteq> 0x2E"
  shows "match_frac (s @ y) = (fr, r0 @ y)"
proof (cases s)
  case Nil
  with assms show ?thesis by (simp add: match_frac_def)
next
  case (Cons c t)
  show ?thesis
  proof (cases t)
    case Nil
    with assms Cons show ?thesis by (cases y) (auto simp: match_frac_def)
  next
    case t: (Cons d t')
    with assms Cons show ?thesis
      by (auto simp: match_frac_def takeWhile_digit_stop dropWhile_digit_stop
               split: if_splits)
  qed
qed

lemma match_exp_stop:
  assumes "match_exp s = (x, r0)" and "stops r0"
  shows "match_exp (s @ y) = (x, r0 @ y)"
proof -
  from stops_Cons [OF assms(2)] obtain c0 r0' where
    r0: "r0 = c0 # r0'" and c0: "\<not> is_digit c0" "c0 \<noteq> 0x65" "c0 \<noteq> 0x45" "c0 \<noteq> 0x2B" "c0 \<noteq> 0x2D"
    by blast
  show ?thesis
  proof (cases s)
    case Nil
    with assms(1) r0 show ?thesis by (simp add: match_exp_def)
  next
    case s: (Cons e s1)
    show ?thesis
    proof (cases "e = 0x65 \<or> e = 0x45")
      case False
      with assms(1) s show ?thesis by (auto simp: match_exp_def)
    next
      case e: True
      show ?thesis
      proof (cases s1)
        case Nil
        with assms(1) s e r0 c0 show ?thesis by (auto simp: match_exp_def)
      next
        case s1: (Cons c s2)
        show ?thesis
        proof (cases "c = 0x2B \<or> c = 0x2D")
          case False
          with assms(1) s e s1 r0 c0 show ?thesis
            by (auto simp: match_exp_def takeWhile_digit_stop dropWhile_digit_stop
                     split: if_splits)
        next
          case sign: True
          show ?thesis
          proof (cases s2)
            case Nil
            with assms(1) s e s1 sign r0 c0 show ?thesis by (auto simp: match_exp_def)
          next
            case (Cons d s3)
            with assms(1) s e s1 sign r0 c0 show ?thesis
              by (auto simp: match_exp_def takeWhile_digit_stop dropWhile_digit_stop
                       split: if_splits)
          qed
        qed
      qed
    qed
  qed
qed

lemma match_number_stop:
  assumes "match_number s = Some (i, fr, x, e)" and "stops e"
  shows "match_number (s @ y) = Some (i, fr, x, e @ y)"
proof -
  from assms(1) obtain s1 s2 where
    i: "match_integer s = Some (i, s1)" and f: "match_frac s1 = (fr, s2)"
    and x: "match_exp s2 = (x, e)"
    by (auto simp: match_number_def Let_def split: option.splits prod.splits)
  from stops_Cons [OF assms(2)] obtain c0 e' where e: "e = c0 # e'" "c0 \<noteq> 0x2E" by blast
  have s2: "s2 = x @ e" using x by (rule match_exp_append)
  have s1: "s1 = fr @ s2" using f by (rule match_frac_append)
  have n2: "s2 \<noteq> []" using s2 e by simp
  have n1: "s1 \<noteq> []" using s1 n2 by simp
  have hd2: "hd s2 \<noteq> 0x2E"
    using match_exp_head [OF x] s2 e by auto
  have 1: "match_integer (s @ y) = Some (i, s1 @ y)" using i n1 by (rule match_integer_stop)
  have 2: "match_frac (s1 @ y) = (fr, s2 @ y)" using f n2 hd2 by (intro match_frac_stop) auto
  have 3: "match_exp (s2 @ y) = (x, e @ y)" using x assms(2) by (rule match_exp_stop)
  show ?thesis by (simp add: match_number_def 1 2 3)
qed

section \<open>Properties of the listener\<close>

subsection \<open>Configuration and reception\<close>

lemma validator_errors:
  "validator F data = Inl e \<Longrightarrow> e = UnicodeDecodeError \<or> e = JSONDecodeError"
  by (auto simp: validator_def bytes_decode_def json_loads_def decode_def
           split: option.splits sum.splits if_splits prod.splits)


text \<open>
  Claim C8. The receive call asks for 65535 bytes, so a datagram whose payload has at most
  65535 bytes reaches the validation step whole: the iteration is the \<^verbatim>\<open>try\<close> body and its
  handler on the full payload.
\<close>

theorem recvfrom_whole_payload:
  assumes "length (payload d) \<le> 65535"
  shows "recvfrom 65535 d = (payload d, sender d)
     \<and> loop_body F st (d, ft) =
         (case try_body F ft st (payload d) (sender d) of
            Inr st' \<Rightarrow> st'
          | Inl JSONDecodeError \<Rightarrow> st\<lparr>printed := printed st @ [Invalid_JSON (sender d)]\<rparr>
          | Inl e \<Rightarrow> st\<lparr>raised := Some e\<rparr>)"
  using assms by (simp add: loop_body_def recvfrom_def)

theorem recvfrom_whole_payload_witness:
  \<open>length (payload \<lparr>payload = bytes_of ''{"temp": 42.5}'', sender = (''10.0.0.1'', 4000)\<rparr>) \<le> 65535
   \<and> recvfrom 65535 \<lparr>payload = bytes_of ''{"temp": 42.5}'', sender = (''10.0.0.1'', 4000)\<rparr>
       = (bytes_of ''{"temp": 42.5}'', (''10.0.0.1'', 4000))
   \<and> disk (f (loop_body text_floats (startup []) 
        (\<lparr>payload = bytes_of ''{"temp": 42.5}'', sender = (''10.0.0.1'', 4000)\<rparr>, NoFault)))
       = ascii ''{"temp": 42.5}'' @ [0x0A]\<close>
  using recvfrom_whole_payload
    [of \<open>\<lparr>payload = bytes_of ''{"temp": 42.5}'', sender = (''10.0.0.1'', 4000)\<rparr>\<close>
        text_floats "startup []" NoFault]
  by (simp add: json_eval cong: eval_cong)

subsection \<open>Malformed payloads\<close>

text \<open>A payload that is valid UTF-8 but not valid JSON is reported and dropped, and the
  loop goes on.\<close>

lemma invalid_json_recovered:
  assumes "bytes_decode (take 65535 (payload d)) = Inr t" and "json_loads F t = Inl JSONDecodeError"
  shows "loop_body F st (d, ft) = st\<lparr>printed := printed st @ [Invalid_JSON (sender d)]\<rparr>"
  using assms by (simp add: loop_body_def recvfrom_def try_body_def validator_def)

text \<open>
  Claim C1 says that every malformed payload, also one that is not valid UTF-8, is dropped
  with a notification while the loop goes on. The handler catches \<^verbatim>\<open>json.JSONDecodeError\<close>
  only: on the one-byte payload \<^verbatim>\<open>b'\xff'\<close> the call \<^verbatim>\<open>data.decode()\<close> raises
  \<^verbatim>\<open>UnicodeDecodeError\<close>, which leaves the loop. Nothing is printed for the datagram and no
  later datagram is processed.
\<close>

theorem invalid_utf8_leaves_loop:
  "bytes_decode [0xFF] = Inl UnicodeDecodeError
   \<and> listen_udp_and_write F existing ((\<lparr>payload = [0xFF], sender = a\<rparr>, ft) # evs)
       = (startup existing)\<lparr>raised := Some UnicodeDecodeError\<rparr>"
proof -
  have b: "bytes_decode [0xFF] = Inl UnicodeDecodeError"
    by (simp add: bytes_decode_def)
  have "loop_body F (startup existing) (\<lparr>payload = [0xFF], sender = a\<rparr>, ft)
        = (startup existing)\<lparr>raised := Some UnicodeDecodeError\<rparr>"
    by (simp add: loop_body_def recvfrom_def try_body_def validator_def b)
  then show ?thesis
    using b by (cases evs) (simp_all add: listen_udp_and_write_def startup_def)
qed



subsection \<open>Failure of the sink\<close>

text \<open>
  Claim C6. When the write or the flush of an accepted record fails, the \<^verbatim>\<open>OSError\<close> is not
  caught: it leaves the loop, the datagram is not reported as written, and no later datagram
  is processed.
\<close>

theorem sink_failure_halts:
  assumes "validator F (take 65535 (payload d)) = Inr obj"
    and "ft \<noteq> NoFault"
    and "raised st = None"
  shows "raised (loop_body F st (d, ft)) = Some OSError
     \<and> printed (loop_body F st (d, ft)) = printed st
     \<and> listen_loop F st ((d, ft) # evs) = loop_body F st (d, ft)"
proof -
  have "loop_body F st (d, ft) = st\<lparr>raised := Some OSError\<rparr>"
    using assms(1,2)
    by (cases ft) (simp_all add: loop_body_def recvfrom_def try_body_def f_write_def f_flush_def)
  then show ?thesis using assms(3) by (cases evs) simp_all
qed

theorem sink_failure_halts_witness:
  \<open>validator text_floats (take 65535 (payload \<lparr>payload = bytes_of ''{"temp": 42.5}'', sender = (''10.0.0.1'', 4000)\<rparr>))
     = Inr (PyDict [(ascii ''temp'', PyFloat (ascii ''42.5''))])
   \<and> FlushFails \<noteq> NoFault \<and> raised (startup []) = None
   \<and> listen_loop text_floats (startup [])
        [(\<lparr>payload = bytes_of ''{"temp": 42.5}'', sender = (''10.0.0.1'', 4000)\<rparr>, FlushFails),
         (\<lparr>payload = bytes_of ''[1]'', sender = (''10.0.0.1'', 4000)\<rparr>, NoFault)]
     = (startup [])\<lparr>raised := Some OSError\<rparr>\<close>
proof -
  have v: \<open>validator text_floats (take 65535 (payload \<lparr>payload = bytes_of ''{"temp": 42.5}'', sender = (''10.0.0.1'', 4000)\<rparr>))
     = Inr (PyDict [(ascii ''temp'', PyFloat (ascii ''42.5''))])\<close>
    by (simp add: json_eval cong: eval_cong)
  have r: "raised (startup []) = None" by (simp add: startup_def)
  have l: \<open>loop_body text_floats (startup [])
        (\<lparr>payload = bytes_of ''{"temp": 42.5}'', sender = (''10.0.0.1'', 4000)\<rparr>, FlushFails)
        = (startup [])\<lparr>raised := Some OSError\<rparr>\<close>
    by (simp add: json_eval cong: eval_cong)
  from sink_failure_halts [OF v _ r, of FlushFails
      \<open>[(\<lparr>payload = bytes_of ''[1]'', sender = (''10.0.0.1'', 4000)\<rparr>, NoFault)]\<close>]
  show ?thesis using v r l by simp
qed

subsection \<open>Round trip\<close>



subsection \<open>What is written to the sink\<close>



text \<open>
  Claim C10. For every accepted record, also one whose strings hold newlines, control
  characters or characters outside ASCII, the text \<^verbatim>\<open>json.dumps\<close> returns consists of
  printable ASCII characters only; it holds no newline, so the record and its terminator
  are exactly one line.
\<close>

theorem dumps_is_one_line:
  assumes "float_lib_ok F" and "validator F data = Inr obj"
  shows "list_all printable (json_dumps F obj)
     \<and> 0x0A \<notin> set (json_dumps F obj)
     \<and> line_count (json_dumps F obj @ [0x0A]) = 1"
proof -
  have w: "wf_record F obj" using assms by (rule validator_wf)
  show ?thesis
    using printable_json_dumps(1) [OF w] json_dumps_no_newline [OF w]
      line_count_line [OF json_dumps_no_newline [OF w]]
    by simp
qed

theorem dumps_is_one_line_witness:
  \<open>float_lib_ok text_floats
   \<and> validator text_floats (bytes_of ''{"a": "x'' @ [0x5C, 0x6E] @ bytes_of ''y'' @ [0xC3, 0xA9] @ bytes_of ''"}'')
     = Inr (PyDict [(ascii ''a'', PyStr [0x78, 0x0A, 0x79, 0xE9])])
   \<and> json_dumps text_floats (PyDict [(ascii ''a'', PyStr [0x78, 0x0A, 0x79, 0xE9])])
     = ascii ''{"a": "x'' @ [0x5C, 0x6E] @ ascii ''y'' @ [0x5C] @ ascii ''u00e9"}''
   \<and> 0x0A \<notin> set (json_dumps text_floats (PyDict [(ascii ''a'', PyStr [0x78, 0x0A, 0x79, 0xE9])]))\<close>
proof -
  have v: \<open>validator text_floats (bytes_of ''{"a": "x'' @ [0x5C, 0x6E] @ bytes_of ''y'' @ [0xC3, 0xA9] @ bytes_of ''"}'')
     = Inr (PyDict [(ascii ''a'', PyStr [0x78, 0x0A, 0x79, 0xE9])])\<close>
    by (simp add: json_eval cong: eval_cong)
  have d: \<open>json_dumps text_floats (PyDict [(ascii ''a'', PyStr [0x78, 0x0A, 0x79, 0xE9])])
     = ascii ''{"a": "x'' @ [0x5C, 0x6E] @ ascii ''y'' @ [0x5C] @ ascii ''u00e9"}''\<close>
    by (simp add: json_eval cong: eval_cong)
  have n: \<open>0x0A \<notin> set (json_dumps text_floats (PyDict [(ascii ''a'', PyStr [0x78, 0x0A, 0x79, 0xE9])]))\<close>
    using dumps_is_one_line [OF float_lib_ok_text_floats v] by (rule conjunct1 [OF conjunct2])
  show ?thesis by (intro conjI float_lib_ok_text_floats v d n)
qed



end
